theory Spec2Isabelle
  imports Main "HOL-Library.AList"
begin

section \<open>The version bumping script \<^verbatim>\<open>scripts/bump_version.py\<close>\<close>

text \<open>
  A shallow embedding of the script. Python's \<^verbatim>\<open>str\<close> is modelled by \<^typ>\<open>string\<close>: a
  \<^typ>\<open>char\<close> stands for the code point of the same number, so the model covers the texts
  whose code points are below 256. Within that range the character classes below are the
  ones Python uses: \<^verbatim>\<open>str.strip()\<close> and the pattern class \<^verbatim>\<open>\s\<close> remove or accept the
  same white space, \<^verbatim>\<open>\d\<close> accepts the ten ASCII digits only, and \<^verbatim>\<open>str.lower()\<close> maps
  each character to one character. The contents of a file are the text that
  \<^verbatim>\<open>read_text\<close> returns and \<^verbatim>\<open>write_text\<close> is given. Python's integers are unbounded, and
  the components of a version are never negative: they are natural numbers here. The bound
  that recent interpreters put on the number of digits in a conversion between a text and an
  integer is a setting of the interpreter and is left out. The new version that the writer
  of \<^verbatim>\<open>Cargo.toml\<close> puts into its replacement template is a text without a backslash
  (\<open>no_backslash\<close> below), which is what the program passes.
\<close>

subsection \<open>Characters and the string methods the script calls\<close>

abbreviation nl :: char where "nl \<equiv> CHR 0x0A"
abbreviation dq :: char where "dq \<equiv> CHR 0x22"

definition is_space :: "char \<Rightarrow> bool" where
  "is_space c =
     (let n = (of_char c :: nat)
      in (9 \<le> n \<and> n \<le> 13) \<or> (28 \<le> n \<and> n \<le> 32) \<or> n = 133 \<or> n = 160)"

definition is_digit :: "char \<Rightarrow> bool" where
  "is_digit c = (let n = (of_char c :: nat) in 48 \<le> n \<and> n \<le> 57)"

definition not_dq :: "char \<Rightarrow> bool" where
  "not_dq c = (c \<noteq> dq)"

definition lower_char :: "char \<Rightarrow> char" where
  "lower_char c =
     (let n = (of_char c :: nat)
      in if (65 \<le> n \<and> n \<le> 90) \<or> (192 \<le> n \<and> n \<le> 222 \<and> n \<noteq> 215)
         then char_of (n + 32) else c)"

definition lower :: "string \<Rightarrow> string" where
  "lower s = map lower_char s"

definition strip :: "string \<Rightarrow> string" where
  "strip s = rev (dropWhile is_space (rev (dropWhile is_space s)))"

definition startswith :: "string \<Rightarrow> string \<Rightarrow> bool" where
  "startswith s p = (take (length p) s = p)"

text \<open>\<^verbatim>\<open>content.split('\n')\<close> and \<^verbatim>\<open>'\n'.join(lines)\<close>.\<close>

fun split_nl :: "string \<Rightarrow> string list" where
  "split_nl [] = [[]]"
| "split_nl (c # cs) =
     (if c = nl then [] # split_nl cs
      else (case split_nl cs of [] \<Rightarrow> [[c]] | l # ls \<Rightarrow> (c # l) # ls))"

fun join_nl :: "string list \<Rightarrow> string" where
  "join_nl [] = []"
| "join_nl [l] = l"
| "join_nl (l # ls) = l @ nl # join_nl ls"

text \<open>\<^verbatim>\<open>int(digits)\<close> on a run of digits, and the decimal text of \<^verbatim>\<open>f"{n}"\<close>.\<close>

definition digit_val :: "char \<Rightarrow> nat" where
  "digit_val c = of_char c - 48"

definition int_of_digits :: "string \<Rightarrow> nat" where
  "int_of_digits ds = foldl (\<lambda>a c. 10 * a + digit_val c) 0 ds"

definition digit_char :: "nat \<Rightarrow> char" where
  "digit_char d = char_of (48 + d)"

function str_of_nat :: "nat \<Rightarrow> string" where
  "str_of_nat n = (if n < 10 then [digit_char n] else str_of_nat (n div 10) @ [digit_char (n mod 10)])"
  by pat_completeness auto
termination
  by (relation "measure (\<lambda>n. n)") auto

declare str_of_nat.simps [simp del]

subsection \<open>The patterns of the \<^verbatim>\<open>re\<close> module that the script uses\<close>

text \<open>
  Every pattern of the script is a sequence of literal texts and greedy repetitions of a
  character class. \<open>match_atoms\<close> is the backtracking matcher for such a sequence at the
  start of a text: a repetition first takes as many characters as the class allows and
  gives them back one at a time while the rest of the pattern fails. The result is the text
  matched by each atom, in order, and the text left after the match.
\<close>

datatype atom = Lit string | Star "char \<Rightarrow> bool" | Plus "char \<Rightarrow> bool"

fun first_of :: "(nat \<Rightarrow> 'a option) \<Rightarrow> nat list \<Rightarrow> 'a option" where
  "first_of f [] = None"
| "first_of f (k # ks) = (case f k of Some r \<Rightarrow> Some r | None \<Rightarrow> first_of f ks)"

fun match_atoms :: "atom list \<Rightarrow> string \<Rightarrow> (string list \<times> string) option" where
  "match_atoms [] s = Some ([], s)"
| "match_atoms (Lit w # as) s =
     (if startswith s w
      then (case match_atoms as (drop (length w) s) of
              None \<Rightarrow> None
            | Some (ps, r) \<Rightarrow> Some (w # ps, r))
      else None)"
| "match_atoms (Star P # as) s =
     first_of (\<lambda>k. case match_atoms as (drop k s) of
                      None \<Rightarrow> None
                    | Some (ps, r) \<Rightarrow> Some (take k s # ps, r))
       (rev [0 ..< Suc (length (takeWhile P s))])"
| "match_atoms (Plus P # as) s =
     first_of (\<lambda>k. case match_atoms as (drop k s) of
                      None \<Rightarrow> None
                    | Some (ps, r) \<Rightarrow> Some (take k s # ps, r))
       (rev [1 ..< Suc (length (takeWhile P s))])"

subsection \<open>Version arithmetic\<close>

datatype error =
    ValueError string
  | FileNotFoundError string
  | JSONDecodeError
  | AttributeError

datatype bump = Major | Minor | Patch

text \<open>The pattern \<^verbatim>\<open>(\d+)\.(\d+)\.(\d+)\<close> of \<^verbatim>\<open>parse_version\<close>.\<close>

definition version_re :: "atom list" where
  "version_re = [Plus is_digit, Lit ''.'', Plus is_digit, Lit ''.'', Plus is_digit]"

definition parse_version :: "string \<Rightarrow> error + (nat \<times> nat \<times> nat)" where
  "parse_version version_str =
     (case match_atoms version_re version_str of
        Some ([a, _, b, _, c], _) \<Rightarrow> Inr (int_of_digits a, int_of_digits b, int_of_digits c)
      | _ \<Rightarrow> Inl (ValueError (''Invalid version format: '' @ version_str)))"

text \<open>
  \<^verbatim>\<open>bump_type\<close> is one of the three texts the classifier returns, or \<^verbatim>\<open>None\<close>; any other
  value takes the last branch as \<^verbatim>\<open>None\<close> does.
\<close>

definition fmt_version :: "nat \<Rightarrow> nat \<Rightarrow> nat \<Rightarrow> string" where
  "fmt_version a b c = str_of_nat a @ ''.'' @ str_of_nat b @ ''.'' @ str_of_nat c"

definition bump_version :: "string \<Rightarrow> bump option \<Rightarrow> error + string" where
  "bump_version version_str bump_type =
     (case parse_version version_str of
        Inl e \<Rightarrow> Inl e
      | Inr (major, minor, patch) \<Rightarrow>
          (case bump_type of
             Some Major \<Rightarrow> Inr (fmt_version (major + 1) 0 0)
           | Some Minor \<Rightarrow> Inr (fmt_version major (minor + 1) 0)
           | Some Patch \<Rightarrow> Inr (fmt_version major minor (patch + 1))
           | None \<Rightarrow> Inr version_str))"

subsection \<open>The classifier\<close>

definition get_bump_type_from_commit :: "string \<Rightarrow> bump option" where
  "get_bump_type_from_commit commit_msg =
     (let msg = lower (strip commit_msg)
      in if startswith msg ''release('' then Some Major
         else if startswith msg ''feature('' then Some Minor
         else if startswith msg ''fix('' then Some Patch
         else None)"

subsection \<open>Reading the current version\<close>

text \<open>
  \<^verbatim>\<open>re.search\<close> with \<^verbatim>\<open>re.MULTILINE\<close> for a pattern that starts with \<^verbatim>\<open>^\<close>: the start
  positions are tried from left to right, and the pattern can match only at the start of the
  text or right after a line break. The flag \<open>bol\<close> says whether the current position is
  such a place.
\<close>

fun search_bol :: "atom list \<Rightarrow> bool \<Rightarrow> string \<Rightarrow> (string list \<times> string) option" where
  "search_bol re bol [] = (if bol then match_atoms re [] else None)"
| "search_bol re bol (c # cs) =
     (case (if bol then match_atoms re (c # cs) else None) of
        Some m \<Rightarrow> Some m
      | None \<Rightarrow> search_bol re (c = nl) cs)"

text \<open>The pattern \<^verbatim>\<open>^version\s*=\s*"([^"]+)"\<close> without its anchor.\<close>

definition current_version_re :: "atom list" where
  "current_version_re =
     [Lit ''version'', Star is_space, Lit ''='', Star is_space, Lit [dq], Plus not_dq, Lit [dq]]"

definition find_version :: "string \<Rightarrow> string option" where
  "find_version content =
     (case search_bol current_version_re True content of
        Some ([_, _, _, _, _, v, _], _) \<Rightarrow> Some v
      | _ \<Rightarrow> None)"

subsection \<open>Rewriting the version line of a \<^verbatim>\<open>Cargo.toml\<close>\<close>

text \<open>The pattern \<^verbatim>\<open>^\s*version\s*=\s*"[^"]+"\<close> that \<^verbatim>\<open>re.match\<close> tests on a line.\<close>

definition version_line_re :: "atom list" where
  "version_line_re =
     [Star is_space, Lit ''version'', Star is_space, Lit ''='', Star is_space, Lit [dq],
      Plus not_dq, Lit [dq]]"

definition is_version_line :: "string \<Rightarrow> bool" where
  "is_version_line line = (match_atoms version_line_re line \<noteq> None)"

text \<open>The pattern \<^verbatim>\<open>(version\s*=\s*")[^"]+(")\<close> of \<^verbatim>\<open>re.sub\<close>.\<close>

definition sub_re :: "atom list" where
  "sub_re =
     [Lit ''version'', Star is_space, Lit ''='', Star is_space, Lit [dq], Plus not_dq, Lit [dq]]"

lemma first_of_SomeD: "first_of f ks = Some r \<Longrightarrow> \<exists>k\<in>set ks. f k = Some r"
  by (induction ks) (auto split: option.splits)

lemma match_atoms_concat: "match_atoms as s = Some (ps, r) \<Longrightarrow> s = concat ps @ r"
proof (induction as arbitrary: s ps r)
  case Nil
  then show ?case by simp
next
  case (Cons a as)
  show ?case
  proof (cases a)
    case (Lit w)
    with Cons.prems obtain ps' where sw: "startswith s w"
      and m: "match_atoms as (drop (length w) s) = Some (ps', r)" and ps: "ps = w # ps'"
      by (auto split: if_splits option.splits)
    have "s = w @ drop (length w) s"
      using sw by (metis append_take_drop_id startswith_def)
    then show ?thesis using Cons.IH[OF m] ps by simp
  next
    case (Star P)
    with Cons.prems obtain ks where
      "first_of (\<lambda>k. case match_atoms as (drop k s) of None \<Rightarrow> None
        | Some (ps, r) \<Rightarrow> Some (take k s # ps, r)) ks = Some (ps, r)"
      by (simp only: match_atoms.simps)
    then obtain k where
      "(case match_atoms as (drop k s) of None \<Rightarrow> None
        | Some (ps, r) \<Rightarrow> Some (take k s # ps, r)) = Some (ps, r)"
      by (blast dest: first_of_SomeD)
    then obtain ps' where m: "match_atoms as (drop k s) = Some (ps', r)" and ps: "ps = take k s # ps'"
      by (auto split: option.splits)
    have "s = take k s @ drop k s" by simp
    then show ?thesis using Cons.IH[OF m] ps by (metis append.assoc concat.simps(2))
  next
    case (Plus P)
    with Cons.prems obtain ks where
      "first_of (\<lambda>k. case match_atoms as (drop k s) of None \<Rightarrow> None
        | Some (ps, r) \<Rightarrow> Some (take k s # ps, r)) ks = Some (ps, r)"
      by (simp only: match_atoms.simps)
    then obtain k where
      "(case match_atoms as (drop k s) of None \<Rightarrow> None
        | Some (ps, r) \<Rightarrow> Some (take k s # ps, r)) = Some (ps, r)"
      by (blast dest: first_of_SomeD)
    then obtain ps' where m: "match_atoms as (drop k s) = Some (ps', r)" and ps: "ps = take k s # ps'"
      by (auto split: option.splits)
    have "s = take k s @ drop k s" by simp
    then show ?thesis using Cons.IH[OF m] ps by (metis append.assoc concat.simps(2))
  qed
qed

lemma match_sub_re_shorter: "match_atoms sub_re s = Some (ps, r) \<Longrightarrow> length r < length s"
proof -
  assume m: "match_atoms sub_re s = Some (ps, r)"
  then obtain ps' where "ps = ''version'' # ps'"
    unfolding sub_re_def by (auto split: if_splits option.splits)
  moreover have "s = concat ps @ r" using m by (rule match_atoms_concat)
  ultimately have "length s = length (''version'' @ concat ps') + length r"
    by (metis concat.simps(2) length_append)
  then show ?thesis by simp
qed

text \<open>
  \<^verbatim>\<open>re.sub\<close> replaces every match of the pattern in the line, from left to right, and
  goes on after the end of each match. The replacement is the first group (the text of the
  first five atoms), the new version and the second group (the text of the last atom).

  The script builds the replacement as the template \<^verbatim>\<open>\g<1>...\g<2>\<close> with the new version
  in the middle, and the library reads a backslash in a template as the start of an escape.
  \<open>sub_version\<close> is the substitution for a new version without a backslash: the template
  then has no escape but the two group references, and the new version is inserted as it
  is. A new version with a backslash is outside the model, and every statement about
  \<open>sub_version\<close> for any new version carries the hypothesis \<open>no_backslash\<close>. The program
  stays inside: \<^verbatim>\<open>main\<close> passes the result of \<open>bump_version\<close> for a bump type, which is
  made of digits and dots.
\<close>

definition no_backslash :: "string \<Rightarrow> bool" where
  "no_backslash new_version = (CHR 0x5C \<notin> set new_version)"

text \<open>\<open>has_version_text s\<close>: the pattern of \<^verbatim>\<open>re.sub\<close> matches at the start of \<open>s\<close>.\<close>

definition has_version_text :: "string \<Rightarrow> bool" where
  "has_version_text s = (match_atoms sub_re s \<noteq> None)"

function sub_version :: "string \<Rightarrow> string \<Rightarrow> string" where
  "sub_version new_version s =
     (case match_atoms sub_re s of
        Some (ps, r) \<Rightarrow> concat (take 5 ps) @ new_version @ concat (drop 6 ps) @ sub_version new_version r
      | None \<Rightarrow> (case s of [] \<Rightarrow> [] | c # cs \<Rightarrow> c # sub_version new_version cs))"
  by pat_completeness auto
termination
  by (relation "measure (\<lambda>(n, s). length s)") (auto dest: match_sub_re_shorter)

declare sub_version.simps [simp del]

text \<open>
  The loop of \<^verbatim>\<open>update_cargo_toml\<close>, with its three variables
  \<^verbatim>\<open>in_package_section\<close>, \<^verbatim>\<open>version_updated\<close> and \<^verbatim>\<open>updated_lines\<close>.
\<close>

fun update_loop :: "string \<Rightarrow> string list \<Rightarrow> bool \<Rightarrow> bool \<Rightarrow> string list \<Rightarrow> bool \<times> bool \<times> string list" where
  "update_loop new_version [] in_package_section version_updated updated_lines =
     (in_package_section, version_updated, updated_lines)"
| "update_loop new_version (line # lines) in_package_section version_updated updated_lines =
     (if strip line = ''[package]''
      then update_loop new_version lines True version_updated (updated_lines @ [line])
      else
        let in_package_section =
              (if in_package_section \<and> startswith (strip line) ''['' \<and> strip line \<noteq> ''[package]''
               then False else in_package_section)
        in if in_package_section \<and> is_version_line line
           then update_loop new_version lines in_package_section True
                  (updated_lines @ [sub_version new_version line])
           else update_loop new_version lines in_package_section version_updated
                  (updated_lines @ [line]))"

definition update_text :: "string \<Rightarrow> string \<Rightarrow> bool \<times> string list" where
  "update_text content new_version =
     (case update_loop new_version (split_nl content) False False [] of
        (_, version_updated, updated_lines) \<Rightarrow> (version_updated, updated_lines))"

subsection \<open>Files, output and the two writers\<close>

text \<open>
  The world of one run: the files by path (relative to the project root), the lines printed
  on the two streams, and a log of every file that was read or written, in order.
\<close>

datatype io_event = FileRead string | FileWrite string

record world =
  files :: "string \<rightharpoonup> string"
  stdout :: "string list"
  stderr :: "string list"
  io_log :: "io_event list"

definition read_text :: "string \<Rightarrow> world \<Rightarrow> (error + string) \<times> world" where
  "read_text path w =
     (case files w path of
        None \<Rightarrow> (Inl (FileNotFoundError path), w)
      | Some content \<Rightarrow> (Inr content, w\<lparr>io_log := io_log w @ [FileRead path]\<rparr>))"

definition write_text :: "string \<Rightarrow> string \<Rightarrow> world \<Rightarrow> world" where
  "write_text path content w =
     w\<lparr>files := (files w)(path \<mapsto> content), io_log := io_log w @ [FileWrite path]\<rparr>"

definition print_out :: "string \<Rightarrow> world \<Rightarrow> world" where
  "print_out line w = w\<lparr>stdout := stdout w @ [line]\<rparr>"

definition print_err :: "string \<Rightarrow> world \<Rightarrow> world" where
  "print_err line w = w\<lparr>stderr := stderr w @ [line]\<rparr>"

definition path_exists :: "string \<Rightarrow> world \<Rightarrow> bool" where
  "path_exists path w = (files w path \<noteq> None)"

definition get_current_version :: "string \<Rightarrow> world \<Rightarrow> (error + string) \<times> world" where
  "get_current_version cargo_toml_path w =
     (case read_text cargo_toml_path w of
        (Inl e, w') \<Rightarrow> (Inl e, w')
      | (Inr content, w') \<Rightarrow>
          (case find_version content of
             Some v \<Rightarrow> (Inr v, w')
           | None \<Rightarrow> (Inl (ValueError (''Could not find version in '' @ cargo_toml_path)), w')))"

definition update_cargo_toml :: "string \<Rightarrow> string \<Rightarrow> world \<Rightarrow> (error + bool) \<times> world" where
  "update_cargo_toml file_path new_version w =
     (case read_text file_path w of
        (Inl e, w') \<Rightarrow> (Inl e, w')
      | (Inr content, w') \<Rightarrow>
          (case update_text content new_version of
             (version_updated, updated_lines) \<Rightarrow>
               if version_updated
               then (Inr True, write_text file_path (join_nl updated_lines) w')
               else (Inr False, w')))"

text \<open>
  The value \<^verbatim>\<open>json.loads\<close> returns. An object is a Python \<^verbatim>\<open>dict\<close>: its keys in the
  order of insertion, each once. The functions \<^verbatim>\<open>json.loads\<close> and \<^verbatim>\<open>json.dumps\<close> belong to
  Python's library, not to the script: they are the parameters \<open>loads\<close> (\<open>None\<close> where
  \<^verbatim>\<open>json.loads\<close> raises) and \<open>dumps\<close> (with the value of \<^verbatim>\<open>indent\<close>).
\<close>

datatype json =
    JNull
  | JBool bool
  | JInt int
  | JFloat string
  | JStr string
  | JArr "json list"
  | JObj "(string \<times> json) list"

definition update_tauri_conf ::
  "(string \<Rightarrow> json option) \<Rightarrow> (json \<Rightarrow> nat \<Rightarrow> string) \<Rightarrow> string \<Rightarrow> string \<Rightarrow> world
     \<Rightarrow> (error + bool) \<times> world" where
  "update_tauri_conf loads dumps file_path new_version w =
     (case read_text file_path w of
        (Inl e, w') \<Rightarrow> (Inl e, w')
      | (Inr content, w') \<Rightarrow>
          (case loads content of
             None \<Rightarrow> (Inl JSONDecodeError, w')
           | Some (JObj data) \<Rightarrow>
               if map_of data ''version'' \<noteq> Some (JStr new_version)
               then (Inr True,
                     write_text file_path
                       (dumps (JObj (AList.update ''version'' (JStr new_version) data)) 2 @ [nl]) w')
               else (Inr False, w')
           | Some _ \<Rightarrow> (Inl AttributeError, w')))"

subsection \<open>The program\<close>

text \<open>
  How a run ends: \<^verbatim>\<open>sys.exit(n)\<close>, or an exception that nothing catches (the interpreter
  then prints the traceback and exits with status 1).
\<close>

datatype outcome = Exit nat | Uncaught error

fun exit_code :: "outcome \<Rightarrow> nat" where
  "exit_code (Exit n) = n"
| "exit_code (Uncaught e) = 1"

definition root_cargo :: string where "root_cargo = ''Cargo.toml''"
definition tauri_cargo :: string where "tauri_cargo = ''src-tauri/Cargo.toml''"
definition tauri_conf :: string where "tauri_conf = ''src-tauri/tauri.conf.json''"

fun bump_name :: "bump \<Rightarrow> string" where
  "bump_name Major = ''major''"
| "bump_name Minor = ''minor''"
| "bump_name Patch = ''patch''"

fun join_comma :: "string list \<Rightarrow> string" where
  "join_comma [] = []"
| "join_comma [x] = x"
| "join_comma (x # xs) = x @ '', '' @ join_comma xs"

text \<open>
  The part of \<^verbatim>\<open>main\<close> after the new version is known to differ from the current one:
  the three writers in order, then the summary.
\<close>

definition apply_updates ::
  "(string \<Rightarrow> json option) \<Rightarrow> (json \<Rightarrow> nat \<Rightarrow> string) \<Rightarrow> string \<Rightarrow> string \<Rightarrow> string \<Rightarrow> bump
     \<Rightarrow> world \<Rightarrow> outcome \<times> world" where
  "apply_updates loads dumps current_version version_to_bump new_version bump_type w =
     (case update_cargo_toml root_cargo new_version w of
        (Inl e, w1) \<Rightarrow> (Uncaught e, w1)
      | (Inr u1, w1) \<Rightarrow>
     (case (if path_exists tauri_cargo w1 then update_cargo_toml tauri_cargo new_version w1
            else (Inr False, w1)) of
        (Inl e, w2) \<Rightarrow> (Uncaught e, w2)
      | (Inr u2, w2) \<Rightarrow>
     (case (if path_exists tauri_conf w2 then update_tauri_conf loads dumps tauri_conf new_version w2
            else (Inr False, w2)) of
        (Inl e, w3) \<Rightarrow> (Uncaught e, w3)
      | (Inr u3, w3) \<Rightarrow>
          let updated = (if u1 then [''Cargo.toml''] else [])
                      @ (if u2 then [''src-tauri/Cargo.toml''] else [])
                      @ (if u3 then [''src-tauri/tauri.conf.json''] else [])
          in if updated \<noteq> []
             then (Exit 0,
                   print_out (''Updated: '' @ join_comma updated)
                     (print_out (''Version bumped: '' @ version_to_bump @ '' -> '' @ new_version
                                  @ '' ('' @ bump_name bump_type @ '')'') w3))
             else (Exit 0, print_out (''No changes made for version: '' @ current_version) w3))))"

text \<open>\<open>argv\<close> is \<^verbatim>\<open>sys.argv\<close>: the name of the script comes first.\<close>

definition main ::
  "(string \<Rightarrow> json option) \<Rightarrow> (json \<Rightarrow> nat \<Rightarrow> string) \<Rightarrow> string list \<Rightarrow> world
     \<Rightarrow> outcome \<times> world" where
  "main loads dumps argv w =
     (if length argv < 2
      then (Exit 1, print_err ''Usage: bump_version.py <commit_message> [base_version]'' w)
      else
        let commit_msg = argv ! 1;
            base_version = (if length argv > 2 then Some (argv ! 2) else None)
        in case get_bump_type_from_commit commit_msg of
             None \<Rightarrow> (Exit 0, w)
           | Some bump_type \<Rightarrow>
               (case get_current_version root_cargo w of
                  (Inl e, w1) \<Rightarrow> (Uncaught e, w1)
                | (Inr current_version, w1) \<Rightarrow>
                    let version_to_bump =
                          (case base_version of
                             None \<Rightarrow> current_version
                           | Some b \<Rightarrow> if b \<noteq> [] then b else current_version)
                    in case bump_version version_to_bump (Some bump_type) of
                         Inl e \<Rightarrow> (Uncaught e, w1)
                       | Inr new_version \<Rightarrow>
                           if new_version = current_version
                           then (Exit 0, print_out (''No version change: '' @ current_version) w1)
                           else apply_updates loads dumps current_version version_to_bump
                                  new_version bump_type w1))"

subsection \<open>A reading of the patterns without backtracking\<close>

text \<open>
  In every pattern of the script a repetition is the last atom, or is followed by a literal
  whose first character is outside the repeated class (\<open>det\<close>). For such a pattern the
  matcher never gives a character back: it agrees with the scanner \<open>scan_atoms\<close>, which takes
  the longest run each time. \<open>piece_ok\<close> says which texts an atom can match, and \<open>tail_ok\<close>
  that the text after a match does not extend a final repetition.
\<close>

fun scan_atoms :: "atom list \<Rightarrow> string \<Rightarrow> (string list \<times> string) option" where
  "scan_atoms [] s = Some ([], s)"
| "scan_atoms (Lit w # as) s =
     (if startswith s w
      then map_option (\<lambda>(ps, r). (w # ps, r)) (scan_atoms as (drop (length w) s))
      else None)"
| "scan_atoms (Star P # as) s =
     map_option (\<lambda>(ps, r). (takeWhile P s # ps, r)) (scan_atoms as (dropWhile P s))"
| "scan_atoms (Plus P # as) s =
     (if takeWhile P s = [] then None
      else map_option (\<lambda>(ps, r). (takeWhile P s # ps, r)) (scan_atoms as (dropWhile P s)))"

fun det :: "atom list \<Rightarrow> bool" where
  "det [] = True"
| "det (Lit w # as) = det as"
| "det [Star P] = True"
| "det [Plus P] = True"
| "det (Star P # Lit (c # w) # as) = (\<not> P c \<and> det as)"
| "det (Plus P # Lit (c # w) # as) = (\<not> P c \<and> det as)"
| "det (Star P # _) = False"
| "det (Plus P # _) = False"

fun piece_ok :: "atom \<Rightarrow> string \<Rightarrow> bool" where
  "piece_ok (Lit w) p = (p = w)"
| "piece_ok (Star P) p = list_all P p"
| "piece_ok (Plus P) p = (p \<noteq> [] \<and> list_all P p)"

fun tail_ok :: "atom list \<Rightarrow> string \<Rightarrow> bool" where
  "tail_ok [] r = True"
| "tail_ok [Star P] r = (case r of [] \<Rightarrow> True | x # _ \<Rightarrow> \<not> P x)"
| "tail_ok [Plus P] r = (case r of [] \<Rightarrow> True | x # _ \<Rightarrow> \<not> P x)"
| "tail_ok [Lit w] r = True"
| "tail_ok (a # as) r = tail_ok as r"

subsection \<open>The tracked section, line by line\<close>

text \<open>
  The two tests the loop of \<^verbatim>\<open>update_cargo_toml\<close> makes on a line: the line is the header
  \<^verbatim>\<open>[package]\<close>, or it is some bracketed header. \<open>tracked_after b ls\<close> is what the last
  bracketed header among the lines \<open>ls\<close> decides: the section is tracked when that header is
  \<^verbatim>\<open>[package]\<close>, and it is as it was before (\<open>b\<close>) when there is no header among them. Line
  \<open>i\<close> of a file lies in the tracked section when the last header at or above it is
  \<^verbatim>\<open>[package]\<close>. \<open>rewritten\<close> gives the output lines in these terms: a line is replaced by
  its substitution when it lies in the tracked section and matches the pattern.
\<close>

definition is_package_header :: "string \<Rightarrow> bool" where
  "is_package_header line = (strip line = ''[package]'')"

definition is_header :: "string \<Rightarrow> bool" where
  "is_header line = startswith (strip line) ''[''"

definition tracked_after :: "bool \<Rightarrow> string list \<Rightarrow> bool" where
  "tracked_after b ls =
     (case filter is_header (rev ls) of [] \<Rightarrow> b | h # _ \<Rightarrow> is_package_header h)"

definition tracked :: "string list \<Rightarrow> nat \<Rightarrow> bool" where
  "tracked ls i = tracked_after False (take (Suc i) ls)"

fun rewritten :: "string \<Rightarrow> bool \<Rightarrow> string list \<Rightarrow> string list" where
  "rewritten new_version b [] = []"
| "rewritten new_version b (l # ls) =
     (if tracked_after b [l] \<and> is_version_line l then sub_version new_version l else l)
       # rewritten new_version (tracked_after b [l]) ls"

subsection \<open>The version line of the reader, line by line\<close>

text \<open>
  \<open>line_version l\<close> is the quoted value of a line that starts with the reader's pattern, all
  of it on the line. \<open>runs_off as l\<close> says that the line ends while a repetition of the
  pattern is still open, so that a match could go on in the next line; \<open>unfinished\<close> is this
  for the reader's pattern: the line is \<^verbatim>\<open>version\<close>, with or without \<^verbatim>\<open>=\<close> and an opening
  quote, but the quoted text is not closed on the line.
\<close>

definition line_version :: "string \<Rightarrow> string option" where
  "line_version line =
     (case match_atoms current_version_re line of
        Some ([_, _, _, _, _, v, _], _) \<Rightarrow> Some v
      | _ \<Rightarrow> None)"

fun runs_off :: "atom list \<Rightarrow> string \<Rightarrow> bool" where
  "runs_off [] l = False"
| "runs_off (Lit w # as) l = (startswith l w \<and> runs_off as (drop (length w) l))"
| "runs_off (Star P # as) l = (dropWhile P l = [] \<or> runs_off as (dropWhile P l))"
| "runs_off (Plus P # as) l =
     (dropWhile P l = [] \<or> (takeWhile P l \<noteq> [] \<and> runs_off as (dropWhile P l)))"

definition unfinished :: "string \<Rightarrow> bool" where
  "unfinished line = runs_off current_version_re line"

fun lits_on_line :: "atom list \<Rightarrow> bool" where
  "lits_on_line [] = True"
| "lits_on_line (Lit w # as) = (nl \<notin> set w \<and> lits_on_line as)"
| "lits_on_line (_ # as) = lits_on_line as"

subsection \<open>Example inputs\<close>

text \<open>A root manifest at version 1.2.3, and the same manifest at 1.2.4 and at 1.2.5.\<close>

definition cargo_at :: "string \<Rightarrow> string" where
  "cargo_at v = ''[package]'' @ [nl] @ ''name = '' @ [dq] @ ''decorator'' @ [dq] @ [nl]
     @ ''version = '' @ [dq] @ v @ [dq] @ [nl]"

definition world_of :: "(string \<rightharpoonup> string) \<Rightarrow> world" where
  "world_of fs = \<lparr>files = fs, stdout = [], stderr = [], io_log = []\<rparr>"

text \<open>
  A stand-in for the library's \<^verbatim>\<open>json\<close> functions on one small document: an object whose
  values are texts, written with one member per line.
\<close>

definition conf_text :: string where
  "conf_text = ''{'' @ [dq] @ ''productName'' @ [dq] @ '': '' @ [dq] @ ''decorator'' @ [dq]
     @ '', '' @ [dq] @ ''version'' @ [dq] @ '': '' @ [dq] @ ''1.2.3'' @ [dq] @ ''}''"

definition conf_loads :: "string \<Rightarrow> json option" where
  "conf_loads s =
     (if s = conf_text
      then Some (JObj [(''productName'', JStr ''decorator''), (''version'', JStr ''1.2.3'')])
      else None)"

fun conf_member :: "nat \<Rightarrow> string \<times> json \<Rightarrow> string" where
  "conf_member indent (k, JStr s) =
     replicate indent CHR '' '' @ [dq] @ k @ [dq] @ '': '' @ [dq] @ s @ [dq]"
| "conf_member indent (k, _) = replicate indent CHR '' '' @ [dq] @ k @ [dq] @ '': null''"

fun join_members :: "string list \<Rightarrow> string" where
  "join_members [] = []"
| "join_members [m] = m"
| "join_members (m # ms) = m @ '','' @ [nl] @ join_members ms"

fun conf_dumps :: "json \<Rightarrow> nat \<Rightarrow> string" where
  "conf_dumps (JObj kvs) indent =
     ''{'' @ [nl] @ join_members (map (conf_member indent) kvs) @ [nl] @ ''}''"
| "conf_dumps _ indent = ''null''"

text \<open>
  A manifest whose only version line stands under another header, one with two version lines
  in the tracked section, and one whose \<^verbatim>\<open>[package]\<close> header comes back after another
  section.
\<close>

definition workspace_cargo :: string where
  "workspace_cargo = ''[workspace.package]'' @ [nl] @ ''version = '' @ [dq] @ ''1.2.3'' @ [dq] @ [nl]"

definition twice_cargo :: string where
  "twice_cargo = ''[package]'' @ [nl] @ ''version = '' @ [dq] @ ''1.0.0'' @ [dq] @ [nl]
     @ ''version = '' @ [dq] @ ''2.0.0'' @ [dq]"

definition reopened_cargo :: string where
  "reopened_cargo = ''[package]'' @ [nl] @ ''[dependencies]'' @ [nl] @ ''[package]'' @ [nl]
     @ ''version = '' @ [dq] @ ''1.0.0'' @ [dq]"

text \<open>A file whose first line opens a quoted value and does not close it.\<close>

definition unclosed_cargo :: string where
  "unclosed_cargo = ''version = '' @ [dq] @ ''a'' @ [nl] @ ''version = '' @ [dq] @ ''1.0.0'' @ [dq]"

section \<open>Properties of the string functions and of the matcher\<close>

lemma first_of_None: "(\<And>k. k \<in> set ks \<Longrightarrow> f k = None) \<Longrightarrow> first_of f ks = None"
  by (induction ks) auto

lemma drop_takeWhile_len: "drop (length (takeWhile P s)) s = dropWhile P s"
  by (metis append_eq_conv_conj takeWhile_dropWhile_id)

lemma take_takeWhile_len: "take (length (takeWhile P s)) s = takeWhile P s"
  by (metis append_eq_conv_conj takeWhile_dropWhile_id)

lemma first_of_top:
  assumes "\<And>k. k < n \<Longrightarrow> lo \<le> k \<Longrightarrow> f k = None" "lo \<le> n"
  shows "first_of f (rev [lo ..< Suc n]) = f n"
proof -
  have "first_of f (rev [lo ..< n]) = None"
    by (rule first_of_None) (use assms in auto)
  moreover have "rev [lo ..< Suc n] = n # rev [lo ..< n]" using assms(2) by simp
  ultimately show ?thesis by (simp split: option.splits)
qed

lemma match_Star_det:
  assumes "\<And>k. k < length (takeWhile P s) \<Longrightarrow> match_atoms as (drop k s) = None"
  shows "match_atoms (Star P # as) s =
     (case match_atoms as (dropWhile P s) of
        None \<Rightarrow> None | Some (ps, r) \<Rightarrow> Some (takeWhile P s # ps, r))"
proof -
  define n where "n = length (takeWhile P s)"
  define f where "f = (\<lambda>k. case match_atoms as (drop k s) of
                      None \<Rightarrow> None
                    | Some (ps, r) \<Rightarrow> Some (take k s # ps, r))"
  have "match_atoms (Star P # as) s = first_of f (rev [0 ..< Suc n])"
    unfolding f_def n_def by (rule match_atoms.simps(3))
  also have "\<dots> = f n"
  proof (rule first_of_top)
    fix k assume "k < n"
    then show "f k = None" using assms unfolding f_def n_def by simp
  qed simp
  also have "\<dots> = (case match_atoms as (dropWhile P s) of
        None \<Rightarrow> None | Some (ps, r) \<Rightarrow> Some (takeWhile P s # ps, r))"
    unfolding f_def n_def by (simp only: drop_takeWhile_len take_takeWhile_len)
  finally show ?thesis .
qed

lemma match_Plus_det:
  assumes "\<And>k. k < length (takeWhile P s) \<Longrightarrow> match_atoms as (drop k s) = None"
  shows "match_atoms (Plus P # as) s =
     (if takeWhile P s = [] then None else
      case match_atoms as (dropWhile P s) of
        None \<Rightarrow> None | Some (ps, r) \<Rightarrow> Some (takeWhile P s # ps, r))"
proof (cases "takeWhile P s = []")
  case True
  then show ?thesis by (simp add: match_atoms.simps(4) del: upt_Suc)
next
  case False
  define n where "n = length (takeWhile P s)"
  define f where "f = (\<lambda>k. case match_atoms as (drop k s) of
                      None \<Rightarrow> None
                    | Some (ps, r) \<Rightarrow> Some (take k s # ps, r))"
  have n1: "1 \<le> n" using False unfolding n_def by (cases "takeWhile P s") auto
  have "match_atoms (Plus P # as) s = first_of f (rev [1 ..< Suc n])"
    unfolding f_def n_def by (rule match_atoms.simps(4))
  also have "\<dots> = f n"
  proof (rule first_of_top)
    fix k assume "k < n"
    then show "f k = None" using assms unfolding f_def n_def by simp
  qed (rule n1)
  also have "\<dots> = (case match_atoms as (dropWhile P s) of
        None \<Rightarrow> None | Some (ps, r) \<Rightarrow> Some (takeWhile P s # ps, r))"
    unfolding f_def n_def by (simp only: drop_takeWhile_len take_takeWhile_len)
  finally show ?thesis using False by simp
qed

lemma match_Lit_inside:
  assumes "\<not> P c" "k < length (takeWhile P s)"
  shows "match_atoms (Lit (c # w) # as) (drop k s) = None"
proof -
  have kl: "k < length s" using assms(2) length_takeWhile_le[of P s] by (meson le_trans not_le)
  have "P (s ! k)" using assms(2) by (metis nth_mem takeWhile_nth set_takeWhileD)
  then have "s ! k \<noteq> c" using assms(1) by auto
  moreover have "drop k s = s ! k # drop (Suc k) s" using kl by (simp add: Cons_nth_drop_Suc)
  ultimately have "\<not> startswith (drop k s) (c # w)" by (simp add: startswith_def)
  then show ?thesis by simp
qed

declare match_atoms.simps(3,4) [simp del]

lemma match_Star_Lit:
  assumes "\<not> P c"
  shows "match_atoms (Star P # Lit (c # w) # as) s =
     (case match_atoms (Lit (c # w) # as) (dropWhile P s) of
        None \<Rightarrow> None | Some (ps, r) \<Rightarrow> Some (takeWhile P s # ps, r))"
  by (rule match_Star_det) (rule match_Lit_inside[where P=P and c=c, OF assms])

lemma match_Plus_Lit:
  assumes "\<not> P c"
  shows "match_atoms (Plus P # Lit (c # w) # as) s =
     (if takeWhile P s = [] then None else
      case match_atoms (Lit (c # w) # as) (dropWhile P s) of
        None \<Rightarrow> None | Some (ps, r) \<Rightarrow> Some (takeWhile P s # ps, r))"
  by (rule match_Plus_det) (rule match_Lit_inside[where P=P and c=c, OF assms])

lemma match_Plus_end:
  "match_atoms [Plus P] s =
     (if takeWhile P s = [] then None else Some ([takeWhile P s], dropWhile P s))"
proof (cases "takeWhile P s = []")
  case True
  then show ?thesis by (simp add: match_atoms.simps(4) del: upt_Suc)
next
  case False
  then have n1: "1 \<le> length (takeWhile P s)" by (cases "takeWhile P s") auto
  have "rev [1 ..< Suc (length (takeWhile P s))] = length (takeWhile P s) # rev [1 ..< length (takeWhile P s)]"
    using n1 by simp
  then show ?thesis using False
    by (simp add: match_atoms.simps(4) drop_takeWhile_len take_takeWhile_len del: upt_Suc)
qed

lemma startswith_Nil [simp]: "startswith s []"
  by (simp add: startswith_def)

lemma startswith_append [simp]: "startswith (w @ r) w"
  by (simp add: startswith_def)

lemma startswith_Cons_Cons [simp]: "startswith (x # s) (c # w) = (x = c \<and> startswith s w)"
  by (auto simp: startswith_def)

lemma startswith_Nil_Cons [simp]: "\<not> startswith [] (c # w)"
  by (simp add: startswith_def)

lemma match_Star_end: "match_atoms [Star P] s = Some ([takeWhile P s], dropWhile P s)"
proof -
  have "rev [0 ..< Suc (length (takeWhile P s))] = length (takeWhile P s) # rev [0 ..< length (takeWhile P s)]"
    by simp
  then show ?thesis
    by (simp add: match_atoms.simps(3) drop_takeWhile_len take_takeWhile_len del: upt_Suc)
qed

lemma case_map_option:
  "(case x of None \<Rightarrow> None | Some (ps, r) \<Rightarrow> Some (f ps, r)) = map_option (\<lambda>(ps, r). (f ps, r)) x"
  by (auto split: option.splits)

lemma match_det: "det as \<Longrightarrow> match_atoms as s = scan_atoms as s"
proof (induction as arbitrary: s rule: det.induct)
  case 1
  then show ?case by simp
next
  case (2 w as)
  then show ?case by (simp add: case_map_option)
next
  case (3 P)
  then show ?case by (simp add: match_Star_end)
next
  case (4 P)
  then show ?case by (simp add: match_Plus_end)
next
  case (5 P c w as)
  then have "\<not> P c" and d: "det (Lit (c # w) # as)" by simp_all
  have ih: "\<And>s. match_atoms (Lit (c # w) # as) s = scan_atoms (Lit (c # w) # as) s"
    using 5 by (simp add: case_map_option)
  show ?case
    by (simp only: match_Star_Lit[where P=P and c=c, OF \<open>\<not> P c\<close>] ih scan_atoms.simps(3) case_map_option)
next
  case (6 P c w as)
  then have "\<not> P c" and d: "det (Lit (c # w) # as)" by simp_all
  have ih: "\<And>s. match_atoms (Lit (c # w) # as) s = scan_atoms (Lit (c # w) # as) s"
    using 6 by (simp add: case_map_option)
  show ?case
    by (simp only: match_Plus_Lit[where P=P and c=c, OF \<open>\<not> P c\<close>] ih scan_atoms.simps(4) case_map_option)
qed simp_all

lemma scan_sound:
  "scan_atoms as s = Some (ps, r) \<Longrightarrow> s = concat ps @ r \<and> list_all2 piece_ok as ps"
proof (induction as s arbitrary: ps r rule: scan_atoms.induct)
  case (1 s)
  then show ?case by simp
next
  case (2 w as s)
  then obtain ps' where sw: "startswith s w" and
    sc: "scan_atoms as (drop (length w) s) = Some (ps', r)" and ps: "ps = w # ps'"
    by (auto split: if_splits)
  from 2(1)[OF sw sc] have "drop (length w) s = concat ps' @ r" "list_all2 piece_ok as ps'" by simp_all
  moreover have "s = w @ drop (length w) s" using sw
    by (metis append_take_drop_id startswith_def)
  ultimately show ?case using ps by simp
next
  case (3 P as s)
  then obtain ps' where sc: "scan_atoms as (dropWhile P s) = Some (ps', r)"
    and ps: "ps = takeWhile P s # ps'" by auto
  from 3(1)[OF sc] have "dropWhile P s = concat ps' @ r" "list_all2 piece_ok as ps'" by simp_all
  moreover have "s = takeWhile P s @ dropWhile P s" by simp
  moreover have "list_all P (takeWhile P s)" by (auto simp: list_all_iff dest: set_takeWhileD)
  ultimately show ?case using ps by (metis append.assoc concat.simps(2) list_all2_Cons piece_ok.simps(2))
next
  case (4 P as s)
  then obtain ps' where ne: "takeWhile P s \<noteq> []" and sc: "scan_atoms as (dropWhile P s) = Some (ps', r)"
    and ps: "ps = takeWhile P s # ps'" by (auto split: if_splits)
  from 4(1)[OF ne sc] have "dropWhile P s = concat ps' @ r" "list_all2 piece_ok as ps'" by simp_all
  moreover have "s = takeWhile P s @ dropWhile P s" by simp
  moreover have "list_all P (takeWhile P s)" by (auto simp: list_all_iff dest: set_takeWhileD)
  ultimately show ?case using ps ne by (metis append.assoc concat.simps(2) list_all2_Cons piece_ok.simps(3))
qed

lemma takeWhile_run:
  "list_all P a \<Longrightarrow> (case r of [] \<Rightarrow> True | x # _ \<Rightarrow> \<not> P x) \<Longrightarrow> takeWhile P (a @ r) = a"
  by (cases r) (auto simp: takeWhile_tail list_all_iff)

lemma dropWhile_run:
  "list_all P a \<Longrightarrow> (case r of [] \<Rightarrow> True | x # _ \<Rightarrow> \<not> P x) \<Longrightarrow> dropWhile P (a @ r) = r"
  by (cases r) (auto simp: dropWhile_append3 list_all_iff)

lemma scan_complete:
  "det as \<Longrightarrow> list_all2 piece_ok as ps \<Longrightarrow> tail_ok as r \<Longrightarrow>
   scan_atoms as (concat ps @ r) = Some (ps, r)"
proof (induction as arbitrary: ps rule: det.induct)
  case 1
  then show ?case by simp
next
  case (2 w as)
  then obtain ps' where ps: "ps = w # ps'" and l: "list_all2 piece_ok as ps'"
    by (auto simp: list_all2_Cons1)
  have t: "tail_ok as r" using 2(4) by (cases as) auto
  show ?case using 2(1)[OF _ l t] 2(2) ps by simp
next
  case (3 P)
  then obtain p where ps: "ps = [p]" and p: "list_all P p" by (auto simp: list_all2_Cons1)
  show ?case using 3 p ps by (simp add: takeWhile_run dropWhile_run)
next
  case (4 P)
  then obtain p where ps: "ps = [p]" and p: "list_all P p" "p \<noteq> []" by (auto simp: list_all2_Cons1)
  show ?case using 4 p ps by (simp add: takeWhile_run dropWhile_run)
next
  case (5 P c w as)
  then obtain p ps' where ps: "ps = p # (c # w) # ps'" and p: "list_all P p"
    and l: "list_all2 piece_ok as ps'" by (auto simp: list_all2_Cons1)
  have t: "tail_ok as r" using 5(4) by (cases as) auto
  have nc: "\<not> P c" and d: "det as" using 5(2) by simp_all
  have tw: "takeWhile P (p @ c # w @ concat ps' @ r) = p"
    using p nc by (intro takeWhile_run) auto
  have dw: "dropWhile P (p @ c # w @ concat ps' @ r) = c # w @ concat ps' @ r"
    using p nc by (intro dropWhile_run) auto
  show ?case using 5(1)[OF d l t] ps by (simp add: tw dw)
next
  case (6 P c w as)
  then obtain p ps' where ps: "ps = p # (c # w) # ps'" and p: "list_all P p" "p \<noteq> []"
    and l: "list_all2 piece_ok as ps'" by (auto simp: list_all2_Cons1)
  have t: "tail_ok as r" using 6(4) by (cases as) auto
  have nc: "\<not> P c" and d: "det as" using 6(2) by simp_all
  have tw: "takeWhile P (p @ c # w @ concat ps' @ r) = p"
    using p nc by (intro takeWhile_run) auto
  have dw: "dropWhile P (p @ c # w @ concat ps' @ r) = c # w @ concat ps' @ r"
    using p nc by (intro dropWhile_run) auto
  show ?case using 6(1)[OF d l t] ps p(2) by (simp add: tw dw)
qed simp_all

subsection \<open>Parsing and printing a version\<close>

lemma not_digit_dot [simp]: "\<not> is_digit CHR ''.''"
  by (simp add: is_digit_def)

lemma dropWhile_head: "dropWhile P xs = x # r \<Longrightarrow> \<not> P x"
  by (metis hd_dropWhile list.sel(1) list.discI)

lemma det_version_re: "det version_re"
  by (simp add: version_re_def)

lemma parse_version_scan:
  "parse_version s =
     (case scan_atoms version_re s of
        Some ([a, _, b, _, c], _) \<Rightarrow> Inr (int_of_digits a, int_of_digits b, int_of_digits c)
      | _ \<Rightarrow> Inl (ValueError (''Invalid version format: '' @ s)))"
  by (simp add: parse_version_def match_det[OF det_version_re])

lemma parse_version_ok:
  assumes "a \<noteq> []" "list_all is_digit a" "b \<noteq> []" "list_all is_digit b"
    "c \<noteq> []" "list_all is_digit c"
  shows "parse_version (a @ ''.'' @ b @ ''.'' @ c @ rest) =
     Inr (int_of_digits a, int_of_digits b, int_of_digits (c @ takeWhile is_digit rest))"
proof -
  let ?c = "c @ takeWhile is_digit rest"
  let ?ps = "[a, ''.'', b, ''.'', ?c]"
  have l: "list_all2 piece_ok version_re ?ps"
    using assms by (auto simp: version_re_def list_all_iff dest: set_takeWhileD)
  have t: "tail_ok version_re (dropWhile is_digit rest)"
    by (auto simp: version_re_def split: list.splits dest: dropWhile_head)
  have "a @ ''.'' @ b @ ''.'' @ c @ rest = concat ?ps @ dropWhile is_digit rest"
    by simp
  then have "scan_atoms version_re (a @ ''.'' @ b @ ''.'' @ c @ rest) = Some (?ps, dropWhile is_digit rest)"
    using scan_complete[OF det_version_re l t] by simp
  then show ?thesis by (simp add: parse_version_scan)
qed

lemma parse_version_fail:
  assumes "\<not> (\<exists>a b c rest. s = a @ ''.'' @ b @ ''.'' @ c @ rest \<and> a \<noteq> [] \<and> list_all is_digit a
     \<and> b \<noteq> [] \<and> list_all is_digit b \<and> c \<noteq> [] \<and> list_all is_digit c)"
  shows "parse_version s = Inl (ValueError (''Invalid version format: '' @ s))"
proof (cases "scan_atoms version_re s")
  case None
  then show ?thesis by (simp add: parse_version_scan)
next
  case (Some m)
  obtain ps r where m: "m = (ps, r)" by (cases m)
  from scan_sound[OF Some[unfolded m]] have s: "s = concat ps @ r" and l: "list_all2 piece_ok version_re ps"
    by simp_all
  from l obtain a b c where ps: "ps = [a, ''.'', b, ''.'', c]"
    and ok: "a \<noteq> []" "list_all is_digit a" "b \<noteq> []" "list_all is_digit b" "c \<noteq> []" "list_all is_digit c"
    by (auto simp: version_re_def list_all2_Cons1)
  have "s = a @ ''.'' @ b @ ''.'' @ c @ r" using s ps by simp
  with ok assms show ?thesis by blast
qed

lemma digit_val_char: "d < 10 \<Longrightarrow> digit_val (digit_char d) = d"
  by (simp add: digit_val_def digit_char_def)

lemma is_digit_char: "d < 10 \<Longrightarrow> is_digit (digit_char d)"
  by (simp add: is_digit_def digit_char_def)

lemma int_of_digits_snoc: "int_of_digits (ds @ [c]) = 10 * int_of_digits ds + digit_val c"
  by (simp add: int_of_digits_def)

lemma str_of_nat_props:
  "int_of_digits (str_of_nat n) = n \<and> list_all is_digit (str_of_nat n) \<and> str_of_nat n \<noteq> []"
proof (induction n rule: str_of_nat.induct)
  case (1 n)
  show ?case
  proof (cases "n < 10")
    case True
    then have s: "str_of_nat n = [digit_char n]" by (subst str_of_nat.simps) simp
    show ?thesis unfolding s using True
      by (simp add: int_of_digits_def digit_val_char is_digit_char)
  next
    case False
    with 1 have ih: "int_of_digits (str_of_nat (n div 10)) = n div 10"
      "list_all is_digit (str_of_nat (n div 10))" by simp_all
    have s: "str_of_nat n = str_of_nat (n div 10) @ [digit_char (n mod 10)]"
      using False by (subst str_of_nat.simps) simp
    show ?thesis
      unfolding s using ih by (simp add: int_of_digits_snoc digit_val_char is_digit_char)
  qed
qed

lemma parse_fmt_version: "parse_version (fmt_version a b c) = Inr (a, b, c)"
proof -
  have "parse_version (str_of_nat a @ ''.'' @ str_of_nat b @ ''.'' @ str_of_nat c @ []) =
     Inr (int_of_digits (str_of_nat a), int_of_digits (str_of_nat b),
          int_of_digits (str_of_nat c @ takeWhile is_digit []))"
    by (rule parse_version_ok) (simp_all add: str_of_nat_props)
  then show ?thesis by (simp add: fmt_version_def str_of_nat_props)
qed

lemma str_of_nat_0: "str_of_nat 0 = ''0''"
  by code_simp

subsection \<open>\<open>strip\<close>, \<open>lower\<close> and \<open>startswith\<close>\<close>

lemma startswith_iff: "startswith s p \<longleftrightarrow> (\<exists>rest. s = p @ rest)"
  unfolding startswith_def
  by (metis append_eq_conv_conj append_take_drop_id)

lemma is_space_lower_char [simp]: "is_space (lower_char c) = is_space c"
  by (auto simp: is_space_def lower_char_def Let_def)

lemma dropWhile_space_lower: "dropWhile is_space (lower s) = lower (dropWhile is_space s)"
  by (induction s) (simp_all add: lower_def)

lemma lower_rev: "lower (rev s) = rev (lower s)"
  by (simp add: lower_def rev_map)

lemma strip_lower: "strip (lower s) = lower (strip s)"
  by (simp add: strip_def dropWhile_space_lower lower_rev[symmetric])

lemma strip_pad:
  assumes "list_all is_space pre" "list_all is_space post"
  shows "strip (pre @ s @ post) = strip s"
proof -
  have 1: "dropWhile is_space (pre @ s @ post) = dropWhile is_space (s @ post)"
    using assms(1) by (simp add: dropWhile_append2 list_all_iff)
  have p: "dropWhile is_space (rev post @ xs) = dropWhile is_space xs" for xs
    using assms(2) by (intro dropWhile_append2) (simp add: list_all_iff)
  show ?thesis
  proof (cases "dropWhile is_space s = []")
    case True
    then have "list_all is_space s" by (simp add: list_all_iff)
    then have a: "dropWhile is_space (s @ post) = []" using assms(2) by (auto simp: list_all_iff)
    show ?thesis unfolding strip_def 1 a True by simp
  next
    case False
    then obtain x where "x \<in> set s" "\<not> is_space x" by auto
    then have "dropWhile is_space (s @ post) = dropWhile is_space s @ post"
      by (simp add: dropWhile_append1)
    then have b: "dropWhile is_space (pre @ s @ post) = dropWhile is_space s @ post"
      using 1 by simp
    show ?thesis unfolding strip_def b by (simp add: p)
  qed
qed

lemma strip_decomp:
  "\<exists>pre post. s = pre @ strip s @ post \<and> list_all is_space pre \<and> list_all is_space post"
proof -
  let ?d = "dropWhile is_space s"
  have "s = takeWhile is_space s @ ?d" by simp
  moreover have "rev ?d = takeWhile is_space (rev ?d) @ dropWhile is_space (rev ?d)" by simp
  then have "?d = strip s @ rev (takeWhile is_space (rev ?d))"
    unfolding strip_def by (metis rev_append rev_rev_ident)
  moreover have "list_all is_space (takeWhile is_space s)"
    "list_all is_space (rev (takeWhile is_space (rev ?d)))"
    by (auto simp: list_all_iff dest: set_takeWhileD)
  ultimately show ?thesis by metis
qed

lemma strip_ends:
  "strip s = [] \<or> (\<not> is_space (hd (strip s)) \<and> \<not> is_space (last (strip s)))"
proof (cases "strip s = []")
  case False
  let ?d = "dropWhile is_space s"
  let ?e = "dropWhile is_space (rev ?d)"
  have e: "?e \<noteq> []" using False by (simp add: strip_def)
  then have l: "\<not> is_space (hd ?e)" by (rule hd_dropWhile)
  have "last (strip s) = hd ?e" using e by (simp add: strip_def last_rev)
  then have 1: "\<not> is_space (last (strip s))" using l by simp
  have d: "?d \<noteq> []" using e by (cases "?d") simp_all
  then have hd: "\<not> is_space (hd ?d)" by (rule hd_dropWhile)
  have "rev ?d = takeWhile is_space (rev ?d) @ ?e" by simp
  then have "?d = strip s @ rev (takeWhile is_space (rev ?d))"
    unfolding strip_def by (metis rev_append rev_rev_ident)
  then have "hd ?d = hd (strip s)" using False by (metis hd_append2)
  then show ?thesis using hd 1 by simp
qed simp

lemma classify_lower:
  "lower a = lower b \<Longrightarrow> get_bump_type_from_commit a = get_bump_type_from_commit b"
  by (simp add: get_bump_type_from_commit_def strip_lower[symmetric])

subsection \<open>The loop of \<open>update_cargo_toml\<close>\<close>

lemma space_facts [simp]:
  "\<not> is_space CHR ''v''" "\<not> is_space CHR ''=''" "\<not> is_space dq" "\<not> not_dq dq"
  "\<not> is_space CHR ''[''"
  by (simp_all add: is_space_def not_dq_def)

lemma det_patterns: "det version_line_re" "det sub_re" "det current_version_re"
  by (simp_all add: version_line_re_def sub_re_def current_version_re_def)

lemma strip_hd:
  assumes "dropWhile is_space s = c # t"
  shows "\<exists>t'. strip s = c # t'"
proof -
  have nc: "\<not> is_space c" using assms by (rule dropWhile_head)
  have "\<exists>xs. dropWhile is_space (rev t @ [c]) = xs @ [c]"
  proof (cases "\<forall>x\<in>set (rev t). is_space x")
    case True
    then have "dropWhile is_space (rev t @ [c]) = dropWhile is_space [c]"
      by (intro dropWhile_append2) simp
    then show ?thesis using nc by simp
  next
    case False
    then obtain x where "x \<in> set (rev t)" "\<not> is_space x" by blast
    then have "dropWhile is_space (rev t @ [c]) = dropWhile is_space (rev t) @ [c]"
      by (rule dropWhile_append1)
    then show ?thesis by blast
  qed
  then obtain xs where "dropWhile is_space (rev t @ [c]) = xs @ [c]" ..
  then show ?thesis using assms by (simp add: strip_def)
qed

lemma version_line_decomp:
  assumes "is_version_line l"
  shows "\<exists>ws k1 k2 v rest. l = ws @ ''version'' @ k1 @ ''='' @ k2 @ [dq] @ v @ [dq] @ rest
     \<and> list_all is_space ws \<and> list_all is_space k1 \<and> list_all is_space k2
     \<and> v \<noteq> [] \<and> list_all not_dq v"
proof -
  from assms obtain ps r where m: "scan_atoms version_line_re l = Some (ps, r)"
    by (auto simp: is_version_line_def match_det[OF det_patterns(1)])
  from scan_sound[OF m] have l: "l = concat ps @ r" and a: "list_all2 piece_ok version_line_re ps"
    by simp_all
  from a obtain ws k1 k2 v where "ps = [ws, ''version'', k1, ''='', k2, [dq], v, [dq]]"
    and "list_all is_space ws" "list_all is_space k1" "list_all is_space k2" "v \<noteq> []" "list_all not_dq v"
    by (auto simp: version_line_re_def list_all2_Cons1)
  with l show ?thesis by (intro exI[of _ ws] exI[of _ k1] exI[of _ k2] exI[of _ v] exI[of _ r]) simp
qed

lemma version_line_not_header:
  assumes "is_version_line l"
  shows "\<not> is_header l" "\<not> is_package_header l"
proof -
  from version_line_decomp[OF assms] obtain ws t where l: "l = ws @ CHR ''v'' # t" and ws: "list_all is_space ws"
    by auto
  have "dropWhile is_space l = CHR ''v'' # t"
    unfolding l using ws by (simp add: dropWhile_append3 list_all_iff)
  from strip_hd[OF this] obtain t' where s: "strip l = CHR ''v'' # t'" ..
  show "\<not> is_header l" by (simp add: is_header_def s)
  show "\<not> is_package_header l" by (simp add: is_package_header_def s)
qed

lemma package_is_header: "is_package_header l \<Longrightarrow> is_header l"
  by (simp add: is_package_header_def is_header_def)

lemma tracked_after_Nil [simp]: "tracked_after b [] = b"
  by (simp add: tracked_after_def)

lemma tracked_after_one:
  "tracked_after b [l] = (if is_header l then is_package_header l else b)"
  by (simp add: tracked_after_def)

lemma tracked_after_Cons: "tracked_after b (l # ls) = tracked_after (tracked_after b [l]) ls"
  by (cases "filter is_header (rev ls)") (simp_all add: tracked_after_def)

lemma tracked_after_append: "tracked_after b (xs @ ys) = tracked_after (tracked_after b xs) ys"
  by (cases "filter is_header (rev ys)") (simp_all add: tracked_after_def)

lemma update_loop_Cons:
  "update_loop new (l # ls) b u out =
     (if tracked_after b [l] \<and> is_version_line l
      then update_loop new ls (tracked_after b [l]) True (out @ [sub_version new l])
      else update_loop new ls (tracked_after b [l]) u (out @ [l]))"
proof (cases "strip l = ''[package]''")
  case True
  then have p: "is_package_header l" by (simp add: is_package_header_def)
  then have "tracked_after b [l]" by (simp add: tracked_after_one package_is_header)
  moreover have "\<not> is_version_line l" using p version_line_not_header(2) by blast
  ultimately show ?thesis using True by simp
next
  case False
  then have np: "\<not> is_package_header l" by (simp add: is_package_header_def)
  show ?thesis
  proof (cases "startswith (strip l) ''[''")
    case True
    then have "is_header l" by (simp add: is_header_def)
    then have "\<not> tracked_after b [l]" using np by (simp add: tracked_after_one)
    then show ?thesis using False True by (cases b) simp_all
  next
    case nh: False
    then have "\<not> is_header l" by (simp add: is_header_def)
    then have "tracked_after b [l] = b" by (simp add: tracked_after_one)
    then show ?thesis using False nh by (cases b) simp_all
  qed
qed

lemma update_loop_eq:
  "update_loop new ls b u out =
     (tracked_after b ls,
      u \<or> (\<exists>i<length ls. tracked_after b (take (Suc i) ls) \<and> is_version_line (ls ! i)),
      out @ rewritten new b ls)"
proof (induction ls arbitrary: b u out)
  case Nil
  then show ?case by simp
next
  case (Cons l ls)
  let ?b = "tracked_after b [l]"
  have ex: "(\<exists>i<length (l # ls). tracked_after b (take (Suc i) (l # ls)) \<and> is_version_line ((l # ls) ! i))
      = ((?b \<and> is_version_line l) \<or> (\<exists>i<length ls. tracked_after ?b (take (Suc i) ls) \<and> is_version_line (ls ! i)))"
    (is "?L = (?h \<or> ?R)")
  proof
    assume ?L
    then obtain i where i: "i < length (l # ls)" "tracked_after b (take (Suc i) (l # ls))"
      "is_version_line ((l # ls) ! i)" by blast
    show "?h \<or> ?R"
    proof (cases i)
      case 0
      with i show ?thesis by simp
    next
      case (Suc j)
      with i have "j < length ls" "tracked_after ?b (take (Suc j) ls)" "is_version_line (ls ! j)"
        by (simp_all add: tracked_after_Cons[of b l "take (Suc j) ls"])
      then show ?thesis by blast
    qed
  next
    assume "?h \<or> ?R"
    then show ?L
    proof
      assume ?h
      then have "0 < length (l # ls) \<and> tracked_after b (take (Suc 0) (l # ls)) \<and> is_version_line ((l # ls) ! 0)"
        by simp
      then show ?L by blast
    next
      assume ?R
      then obtain j where "j < length ls" "tracked_after ?b (take (Suc j) ls)" "is_version_line (ls ! j)"
        by blast
      then have "Suc j < length (l # ls) \<and> tracked_after b (take (Suc (Suc j)) (l # ls))
          \<and> is_version_line ((l # ls) ! Suc j)"
        by (simp add: tracked_after_Cons[of b l "take (Suc j) ls"])
      then show ?L by blast
    qed
  qed
  show ?case
    unfolding ex update_loop_Cons
    by (auto simp add: Cons.IH tracked_after_Cons[of b l ls])
qed

lemma length_rewritten [simp]: "length (rewritten new b ls) = length ls"
  by (induction ls arbitrary: b) simp_all

lemma nth_rewritten:
  "i < length ls \<Longrightarrow>
   rewritten new b ls ! i =
     (if tracked_after b (take (Suc i) ls) \<and> is_version_line (ls ! i)
      then sub_version new (ls ! i) else ls ! i)"
proof (induction ls arbitrary: b i)
  case Nil
  then show ?case by simp
next
  case (Cons l ls)
  show ?case
  proof (cases i)
    case 0
    then show ?thesis by simp
  next
    case (Suc j)
    with Cons.prems have "j < length ls" by simp
    from Cons.IH[OF this, of "tracked_after b [l]"] show ?thesis
      using Suc by (simp add: tracked_after_Cons[of b l "take (Suc j) ls"])
  qed
qed

lemma version_line_complete:
  assumes "list_all is_space ws" "list_all is_space k1" "list_all is_space k2" "v \<noteq> []" "list_all not_dq v"
  shows "is_version_line (ws @ ''version'' @ k1 @ ''='' @ k2 @ [dq] @ v @ [dq] @ rest)"
proof -
  let ?ps = "[ws, ''version'', k1, ''='', k2, [dq], v, [dq]]"
  have l: "list_all2 piece_ok version_line_re ?ps" using assms by (simp add: version_line_re_def)
  have t: "tail_ok version_line_re rest" by (simp add: version_line_re_def)
  have "scan_atoms version_line_re (concat ?ps @ rest) = Some (?ps, rest)"
    using det_patterns(1) l t by (rule scan_complete)
  then show ?thesis by (simp add: is_version_line_def match_det[OF det_patterns(1)])
qed

lemma tracked_after_no_package:
  assumes "\<forall>l\<in>set ls. \<not> is_package_header l"
  shows "\<not> tracked_after False ls"
proof (cases "filter is_header (rev ls)")
  case Nil
  then show ?thesis by (simp add: tracked_after_def)
next
  case (Cons h hs)
  then have "h \<in> set (filter is_header (rev ls))" by simp
  then have "h \<in> set ls" by simp
  then show ?thesis using assms Cons by (simp add: tracked_after_def)
qed

lemma is_version_line_iff:
  "is_version_line l \<longleftrightarrow>
     (\<exists>ws k1 k2 v rest. l = ws @ ''version'' @ k1 @ ''='' @ k2 @ [dq] @ v @ [dq] @ rest
        \<and> list_all is_space ws \<and> list_all is_space k1 \<and> list_all is_space k2
        \<and> v \<noteq> [] \<and> list_all not_dq v)"
  using version_line_decomp version_line_complete by blast

subsection \<open>The substitution, and splitting into lines\<close>

lemma match_sub_re_other: "c \<noteq> CHR ''v'' \<Longrightarrow> match_atoms sub_re (c # s) = None"
  by (simp add: sub_re_def)

lemma sub_version_skip:
  "list_all is_space ws \<Longrightarrow> sub_version new (ws @ s) = ws @ sub_version new s"
proof (induction ws)
  case Nil
  then show ?case by simp
next
  case (Cons c ws)
  then have "c \<noteq> CHR ''v''" by auto
  then have "match_atoms sub_re (c # ws @ s) = None" by (rule match_sub_re_other)
  then have "sub_version new (c # ws @ s) = c # sub_version new (ws @ s)"
    by (subst sub_version.simps) simp
  then show ?case using Cons by simp
qed

lemma match_sub_re_complete:
  assumes "list_all is_space k1" "list_all is_space k2" "v \<noteq> []" "list_all not_dq v"
  shows "match_atoms sub_re (''version'' @ k1 @ ''='' @ k2 @ [dq] @ v @ [dq] @ rest) =
     Some ([''version'', k1, ''='', k2, [dq], v, [dq]], rest)"
proof -
  let ?ps = "[''version'', k1, ''='', k2, [dq], v, [dq]]"
  have l: "list_all2 piece_ok sub_re ?ps" using assms by (simp add: sub_re_def)
  have t: "tail_ok sub_re rest" by (simp add: sub_re_def)
  have "scan_atoms sub_re (concat ?ps @ rest) = Some (?ps, rest)"
    using det_patterns(2) l t by (rule scan_complete)
  then show ?thesis by (simp add: match_det[OF det_patterns(2)])
qed

lemma sub_version_Some:
  "match_atoms sub_re s = Some (ps, r) \<Longrightarrow>
   sub_version new s = concat (take 5 ps) @ new @ concat (drop 6 ps) @ sub_version new r"
  by (subst sub_version.simps) simp

lemma sub_version_match:
  assumes "list_all is_space k1" "list_all is_space k2" "v \<noteq> []" "list_all not_dq v"
  shows "sub_version new (''version'' @ k1 @ ''='' @ k2 @ [dq] @ v @ [dq] @ rest) =
     ''version'' @ k1 @ ''='' @ k2 @ [dq] @ new @ [dq] @ sub_version new rest"
  using sub_version_Some[OF match_sub_re_complete[OF assms, of rest], of new] by simp

lemma sub_version_line:
  assumes "is_version_line l"
  shows "\<exists>ws k1 k2 v rest. l = ws @ ''version'' @ k1 @ ''='' @ k2 @ [dq] @ v @ [dq] @ rest
     \<and> list_all is_space ws \<and> list_all is_space k1 \<and> list_all is_space k2
     \<and> v \<noteq> [] \<and> list_all not_dq v
     \<and> sub_version new l = ws @ ''version'' @ k1 @ ''='' @ k2 @ [dq] @ new @ [dq] @ sub_version new rest"
proof -
  from version_line_decomp[OF assms] obtain ws k1 k2 v rest where
    l: "l = ws @ ''version'' @ k1 @ ''='' @ k2 @ [dq] @ v @ [dq] @ rest"
    and p: "list_all is_space ws" "list_all is_space k1" "list_all is_space k2" "v \<noteq> []" "list_all not_dq v"
    by blast
  have "sub_version new l = ws @ sub_version new (''version'' @ k1 @ ''='' @ k2 @ [dq] @ v @ [dq] @ rest)"
    unfolding l using p(1) by (rule sub_version_skip)
  also have "\<dots> = ws @ ''version'' @ k1 @ ''='' @ k2 @ [dq] @ new @ [dq] @ sub_version new rest"
    using sub_version_match[OF p(2-5)] by simp
  finally show ?thesis using l p by blast
qed

lemma split_nl_not_Nil [simp]: "split_nl s \<noteq> []"
  by (induction s) (auto split: list.splits)

lemma join_split_nl [simp]: "join_nl (split_nl s) = s"
proof (induction s)
  case Nil
  then show ?case by simp
next
  case (Cons c s)
  show ?case
  proof (cases "c = nl")
    case True
    obtain l ls where "split_nl s = l # ls" using split_nl_not_Nil[of s] by (cases "split_nl s") auto
    then show ?thesis using True Cons by simp
  next
    case False
    obtain l ls where e: "split_nl s = l # ls" using split_nl_not_Nil[of s] by (cases "split_nl s") auto
    then have "join_nl ((c # l) # ls) = c # join_nl (l # ls)" by (cases ls) simp_all
    then show ?thesis using False Cons e by simp
  qed
qed

lemma update_text_eq:
  "update_text content new =
     (\<exists>i<length (split_nl content). tracked (split_nl content) i \<and> is_version_line (split_nl content ! i),
      rewritten new False (split_nl content))"
  by (simp add: update_text_def update_loop_eq tracked_def)

lemma update_cargo_toml_eq:
  assumes "files w file_path = Some content"
  shows "update_cargo_toml file_path new_version w =
    (if \<exists>i<length (split_nl content). tracked (split_nl content) i \<and> is_version_line (split_nl content ! i)
     then (Inr True,
           w\<lparr>files := (files w)(file_path \<mapsto> join_nl (rewritten new_version False (split_nl content))),
             io_log := io_log w @ [FileRead file_path, FileWrite file_path]\<rparr>)
     else (Inr False, w\<lparr>io_log := io_log w @ [FileRead file_path]\<rparr>))"
  using assms by (auto simp add: update_cargo_toml_def read_text_def write_text_def update_text_eq)

subsection \<open>What determines the substitution\<close>

lemma has_version_text_iff:
  "has_version_text t \<longleftrightarrow>
     (\<exists>k1 k2 v rest. t = ''version'' @ k1 @ ''='' @ k2 @ [dq] @ v @ [dq] @ rest
        \<and> list_all is_space k1 \<and> list_all is_space k2 \<and> v \<noteq> [] \<and> list_all not_dq v)"
proof
  assume "has_version_text t"
  then obtain ps r where s: "scan_atoms sub_re t = Some (ps, r)"
    by (auto simp: has_version_text_def match_det[OF det_patterns(2)])
  from scan_sound[OF s] have t: "t = concat ps @ r" and p: "list_all2 piece_ok sub_re ps"
    by simp_all
  from p obtain k1 k2 v where "ps = [''version'', k1, ''='', k2, [dq], v, [dq]]"
    and "list_all is_space k1" "list_all is_space k2" "v \<noteq> []" "list_all not_dq v"
    by (auto simp: sub_re_def list_all2_Cons1)
  with t show "\<exists>k1 k2 v rest. t = ''version'' @ k1 @ ''='' @ k2 @ [dq] @ v @ [dq] @ rest
        \<and> list_all is_space k1 \<and> list_all is_space k2 \<and> v \<noteq> [] \<and> list_all not_dq v"
    by (intro exI[of _ k1] exI[of _ k2] exI[of _ v] exI[of _ r]) simp
next
  assume "\<exists>k1 k2 v rest. t = ''version'' @ k1 @ ''='' @ k2 @ [dq] @ v @ [dq] @ rest
        \<and> list_all is_space k1 \<and> list_all is_space k2 \<and> v \<noteq> [] \<and> list_all not_dq v"
  then obtain k1 k2 v rest where t: "t = ''version'' @ k1 @ ''='' @ k2 @ [dq] @ v @ [dq] @ rest"
    and ok: "list_all is_space k1" "list_all is_space k2" "v \<noteq> []" "list_all not_dq v"
    by blast
  show "has_version_text t"
    unfolding has_version_text_def t using match_sub_re_complete[OF ok, of rest] by simp
qed

lemma sub_version_None:
  assumes "\<not> has_version_text (c # cs)"
  shows "sub_version new (c # cs) = c # sub_version new cs"
proof -
  have "match_atoms sub_re (c # cs) = None"
    using assms unfolding has_version_text_def by blast
  then show ?thesis by (subst sub_version.simps) simp
qed

lemma sub_version_Nil [simp]: "sub_version new [] = []"
  by (subst sub_version.simps) (simp add: sub_re_def)

lemma sub_version_no_match:
  "(\<forall>a t. s = a @ t \<longrightarrow> \<not> has_version_text t) \<Longrightarrow> sub_version new s = s"
proof (induction s)
  case Nil
  then show ?case by simp
next
  case (Cons c cs)
  have 1: "\<not> has_version_text (c # cs)" using Cons.prems by (metis append_Nil)
  have 2: "\<forall>a t. cs = a @ t \<longrightarrow> \<not> has_version_text t"
    using Cons.prems by (metis append_Cons)
  show ?case using sub_version_None[OF 1] Cons.IH[OF 2] by simp
qed

lemma sub_version_first_match:
  assumes "list_all is_space k1" "list_all is_space k2" "v \<noteq> []" "list_all not_dq v"
    and "\<forall>a b. pre = a @ b \<and> b \<noteq> [] \<longrightarrow>
           \<not> has_version_text (b @ ''version'' @ k1 @ ''='' @ k2 @ [dq] @ v @ [dq] @ rest)"
  shows "sub_version new (pre @ ''version'' @ k1 @ ''='' @ k2 @ [dq] @ v @ [dq] @ rest) =
     pre @ ''version'' @ k1 @ ''='' @ k2 @ [dq] @ new @ [dq] @ sub_version new rest"
  using assms(5)
proof (induction pre)
  case Nil
  show ?case using sub_version_match[OF assms(1-4), of new rest] by simp
next
  case (Cons c pre)
  let ?t = "''version'' @ k1 @ ''='' @ k2 @ [dq] @ v @ [dq] @ rest"
  have "\<not> has_version_text ((c # pre) @ ?t)" using Cons.prems by blast
  then have 1: "sub_version new (c # pre @ ?t) = c # sub_version new (pre @ ?t)"
    using sub_version_None[of c "pre @ ?t" new] by simp
  have 2: "\<forall>a b. pre = a @ b \<and> b \<noteq> [] \<longrightarrow> \<not> has_version_text (b @ ?t)"
  proof (intro allI impI)
    fix a b assume "pre = a @ b \<and> b \<noteq> []"
    then have "c # pre = (c # a) @ b \<and> b \<noteq> []" by simp
    then show "\<not> has_version_text (b @ ?t)" using Cons.prems by blast
  qed
  show ?case using 1 Cons.IH[OF 2] by simp
qed

lemma sub_version_unique:
  assumes S1: "\<And>s. (\<forall>a t. s = a @ t \<longrightarrow> \<not> has_version_text t) \<Longrightarrow> f s = s"
    and S2: "\<And>pre k1 k2 v rest.
        list_all is_space k1 \<Longrightarrow> list_all is_space k2 \<Longrightarrow> v \<noteq> [] \<Longrightarrow> list_all not_dq v \<Longrightarrow>
        (\<forall>a b. pre = a @ b \<and> b \<noteq> [] \<longrightarrow>
           \<not> has_version_text (b @ ''version'' @ k1 @ ''='' @ k2 @ [dq] @ v @ [dq] @ rest)) \<Longrightarrow>
        f (pre @ ''version'' @ k1 @ ''='' @ k2 @ [dq] @ v @ [dq] @ rest) =
          pre @ ''version'' @ k1 @ ''='' @ k2 @ [dq] @ new @ [dq] @ f rest"
  shows "f s = sub_version new s"
proof (induction s rule: length_induct)
  case (1 s)
  show ?case
  proof (cases "\<exists>a t. s = a @ t \<and> has_version_text t")
    case False
    then have n: "\<forall>a t. s = a @ t \<longrightarrow> \<not> has_version_text t" by blast
    show ?thesis using S1[OF n] sub_version_no_match[OF n, of new] by simp
  next
    case True
    define Q where "Q n = (\<exists>a t. s = a @ t \<and> length a = n \<and> has_version_text t)" for n
    from True have "\<exists>n. Q n" unfolding Q_def by blast
    then have q: "Q (LEAST n. Q n)" by (rule LeastI_ex)
    then obtain a t where s: "s = a @ t" and la: "length a = (LEAST n. Q n)" and h: "has_version_text t"
      unfolding Q_def by blast
    have least: "\<not> Q m" if "m < length a" for m
      using that la not_less_Least[of m Q] by simp
    from h obtain k1 k2 v rest where t: "t = ''version'' @ k1 @ ''='' @ k2 @ [dq] @ v @ [dq] @ rest"
      and ok: "list_all is_space k1" "list_all is_space k2" "v \<noteq> []" "list_all not_dq v"
      unfolding has_version_text_iff by blast
    have side: "\<forall>x b. a = x @ b \<and> b \<noteq> [] \<longrightarrow>
        \<not> has_version_text (b @ ''version'' @ k1 @ ''='' @ k2 @ [dq] @ v @ [dq] @ rest)"
    proof (intro allI impI notI)
      fix x b
      assume ab: "a = x @ b \<and> b \<noteq> []"
        and hv: "has_version_text (b @ ''version'' @ k1 @ ''='' @ k2 @ [dq] @ v @ [dq] @ rest)"
      have "s = x @ (b @ t)" using s ab by simp
      then have "Q (length x)" unfolding Q_def using hv t by blast
      moreover have "length x < length a" using ab by simp
      ultimately show False using least by blast
    qed
    have lr: "length rest < length s" unfolding s t by simp
    have "f s = a @ ''version'' @ k1 @ ''='' @ k2 @ [dq] @ new @ [dq] @ f rest"
      unfolding s t using ok side by (rule S2)
    moreover have "sub_version new s = a @ ''version'' @ k1 @ ''='' @ k2 @ [dq] @ new @ [dq] @ sub_version new rest"
      unfolding s t using ok side by (rule sub_version_first_match)
    moreover have "f rest = sub_version new rest" using 1 lr by blast
    ultimately show ?thesis by simp
  qed
qed

lemma digit_not_backslash: "is_digit c \<Longrightarrow> c \<noteq> CHR 0x5C"
  by (auto simp: is_digit_def)

lemma str_of_nat_no_backslash: "CHR 0x5C \<notin> set (str_of_nat n)"
  using str_of_nat_props[of n] digit_not_backslash by (auto simp: list_all_iff)

lemma bump_version_no_backslash:
  assumes "bump_version v (Some b) = Inr new_version"
  shows "no_backslash new_version"
proof -
  from assms obtain x y z where "new_version = fmt_version x y z"
    by (cases b) (auto simp: bump_version_def split: sum.splits)
  then show ?thesis
    by (simp add: no_backslash_def fmt_version_def str_of_nat_no_backslash)
qed

lemma has_version_text_v: "has_version_text t \<Longrightarrow> CHR ''v'' \<in> set t"
  unfolding has_version_text_iff by auto

lemma sub_version_line_kept:
  assumes "list_all is_space ws" "list_all is_space k1" "list_all is_space k2" "v \<noteq> []"
    "list_all not_dq v" "\<forall>a t. rest = a @ t \<longrightarrow> \<not> has_version_text t"
  shows "sub_version new (ws @ ''version'' @ k1 @ ''='' @ k2 @ [dq] @ v @ [dq] @ rest) =
     ws @ ''version'' @ k1 @ ''='' @ k2 @ [dq] @ new @ [dq] @ rest"
proof -
  have "sub_version new (ws @ ''version'' @ k1 @ ''='' @ k2 @ [dq] @ v @ [dq] @ rest)
      = ws @ sub_version new (''version'' @ k1 @ ''='' @ k2 @ [dq] @ v @ [dq] @ rest)"
    using assms(1) by (rule sub_version_skip)
  also have "\<dots> = ws @ ''version'' @ k1 @ ''='' @ k2 @ [dq] @ new @ [dq] @ sub_version new rest"
    using sub_version_match[OF assms(2-5), of new rest] by simp
  also have "sub_version new rest = rest" using assms(6) by (rule sub_version_no_match)
  finally show ?thesis .
qed

subsection \<open>The search of \<open>get_current_version\<close>, line by line\<close>

lemma startswith_line:
  assumes "nl \<notin> set w"
  shows "startswith (x @ nl # r) w = startswith x w"
proof (cases "length w \<le> length x")
  case True
  then show ?thesis by (simp add: startswith_def)
next
  case False
  then have lt: "length x < length w" by simp
  have "\<not> startswith x w" using lt by (auto simp: startswith_def)
  moreover have "\<not> startswith (x @ nl # r) w"
  proof
    assume "startswith (x @ nl # r) w"
    then have "take (length w) (x @ nl # r) = w" by (simp add: startswith_def)
    then have "w ! length x = (x @ nl # r) ! length x" using lt by (metis nth_take)
    then have "w ! length x = nl" by simp
    then show False using assms lt by (metis nth_mem)
  qed
  ultimately show ?thesis by simp
qed

lemma startswith_length: "startswith l w \<Longrightarrow> length w \<le> length l"
  by (metis startswith_def length_take min.cobounded2 min.commute)

lemma scan_line:
  "lits_on_line as \<Longrightarrow> \<not> runs_off as l \<Longrightarrow>
   scan_atoms as (l @ nl # r) = map_option (\<lambda>(ps, r0). (ps, r0 @ nl # r)) (scan_atoms as l)"
proof (induction as l rule: scan_atoms.induct)
  case (1 s)
  then show ?case by simp
next
  case (2 w as s)
  then have w: "nl \<notin> set w" and la: "lits_on_line as" by simp_all
  show ?case
  proof (cases "startswith s w")
    case True
    then have d: "drop (length w) (s @ nl # r) = drop (length w) s @ nl # r"
      using startswith_length[OF True] by simp
    have nr: "\<not> runs_off as (drop (length w) s)" using 2(3) True by simp
    show ?thesis
      using True 2(1)[OF True la nr]
      by (simp add: startswith_line[OF w] d option.map_comp comp_def split_def del: drop_append)
  next
    case False
    then show ?thesis by (simp add: startswith_line[OF w])
  qed
next
  case (3 P as s)
  then have ne: "dropWhile P s \<noteq> []" and nr: "\<not> runs_off as (dropWhile P s)" and la: "lits_on_line as"
    by simp_all
  from ne obtain x where x: "x \<in> set s" "\<not> P x" by (auto simp: dropWhile_eq_Nil_conv)
  have t: "takeWhile P (s @ nl # r) = takeWhile P s" using x by (rule takeWhile_append1)
  have d: "dropWhile P (s @ nl # r) = dropWhile P s @ nl # r" using x by (rule dropWhile_append1)
  show ?case using 3(1)[OF la nr] by (simp add: t d option.map_comp comp_def split_def)
next
  case (4 P as s)
  then have ne: "dropWhile P s \<noteq> []" and la: "lits_on_line as" by simp_all
  from ne obtain x where x: "x \<in> set s" "\<not> P x" by (auto simp: dropWhile_eq_Nil_conv)
  have t: "takeWhile P (s @ nl # r) = takeWhile P s" using x by (rule takeWhile_append1)
  have d: "dropWhile P (s @ nl # r) = dropWhile P s @ nl # r" using x by (rule dropWhile_append1)
  show ?case
  proof (cases "takeWhile P s = []")
    case True
    then show ?thesis by (simp add: t)
  next
    case False
    then have nr: "\<not> runs_off as (dropWhile P s)" using 4(3) by simp
    show ?thesis using False 4(1)[OF False la nr] by (simp add: t d option.map_comp comp_def split_def)
  qed
qed

lemma search_skip_line: "nl \<notin> set l \<Longrightarrow> search_bol re False (l @ nl # r) = search_bol re True r"
  by (induction l) auto

lemma search_skip_last: "nl \<notin> set l \<Longrightarrow> search_bol re False l = None"
  by (induction l) auto

lemma search_line:
  "nl \<notin> set l \<Longrightarrow>
   search_bol re True (l @ nl # r) =
     (case match_atoms re (l @ nl # r) of Some m \<Rightarrow> Some m | None \<Rightarrow> search_bol re True r)"
  by (cases l) (auto simp: search_skip_line split: option.splits)

lemma search_last: "nl \<notin> set l \<Longrightarrow> search_bol re True l = match_atoms re l"
  by (cases l) (auto simp: search_skip_last split: option.splits)

lemma split_nl_no_nl: "l \<in> set (split_nl s) \<Longrightarrow> nl \<notin> set l"
proof (induction s arbitrary: l)
  case Nil
  then show ?case by simp
next
  case (Cons c s)
  obtain a as where e: "split_nl s = a # as" using split_nl_not_Nil[of s] by (cases "split_nl s") auto
  show ?case
  proof (cases "c = nl")
    case True
    with Cons show ?thesis by auto
  next
    case False
    with Cons.prems e have "l = c # a \<or> l \<in> set as" by simp
    then show ?thesis
    proof
      assume "l = c # a"
      moreover have "nl \<notin> set a" using Cons.IH[of a] e by simp
      ultimately show ?thesis using False by simp
    next
      assume "l \<in> set as"
      then show ?thesis using Cons.IH[of l] e by simp
    qed
  qed
qed

lemma lits_current: "lits_on_line current_version_re"
  by (simp add: current_version_re_def)

lemma tail_current: "tail_ok current_version_re r"
  by (simp add: current_version_re_def)

lemma pieces_current:
  "list_all2 piece_ok current_version_re ps \<longleftrightarrow>
     (\<exists>k1 k2 v. ps = [''version'', k1, ''='', k2, [dq], v, [dq]]
        \<and> list_all is_space k1 \<and> list_all is_space k2 \<and> v \<noteq> [] \<and> list_all not_dq v)"
  by (auto simp: current_version_re_def list_all2_Cons1)

lemma scan_extends:
  assumes "scan_atoms current_version_re l = Some (ps, r0)"
  shows "scan_atoms current_version_re (l @ t) = Some (ps, r0 @ t)"
proof -
  from scan_sound[OF assms] have l: "l = concat ps @ r0" and p: "list_all2 piece_ok current_version_re ps"
    by simp_all
  have "scan_atoms current_version_re (concat ps @ (r0 @ t)) = Some (ps, r0 @ t)"
    using det_patterns(3) p tail_current by (rule scan_complete)
  then show ?thesis using l by simp
qed

lemma line_version_Some:
  "line_version l = Some v \<longleftrightarrow>
     (\<exists>ps r0. scan_atoms current_version_re l = Some (ps, r0) \<and> ps ! 5 = v)"
proof
  assume "line_version l = Some v"
  then show "\<exists>ps r0. scan_atoms current_version_re l = Some (ps, r0) \<and> ps ! 5 = v"
    by (auto simp: line_version_def match_det[OF det_patterns(3)] split: option.splits list.splits)
next
  assume "\<exists>ps r0. scan_atoms current_version_re l = Some (ps, r0) \<and> ps ! 5 = v"
  then obtain ps r0 where s: "scan_atoms current_version_re l = Some (ps, r0)" and v: "ps ! 5 = v"
    by blast
  from scan_sound[OF s] have "list_all2 piece_ok current_version_re ps" by simp
  then obtain k1 k2 v' where "ps = [''version'', k1, ''='', k2, [dq], v', [dq]]"
    unfolding pieces_current by blast
  then show "line_version l = Some v"
    using s v by (simp add: line_version_def match_det[OF det_patterns(3)])
qed

lemma line_version_None:
  "line_version l = None \<longleftrightarrow> scan_atoms current_version_re l = None"
proof
  assume n: "line_version l = None"
  show "scan_atoms current_version_re l = None"
  proof (rule ccontr)
    assume "scan_atoms current_version_re l \<noteq> None"
    then obtain ps r0 where "scan_atoms current_version_re l = Some (ps, r0)" by auto
    then have "line_version l = Some (ps ! 5)" unfolding line_version_Some by blast
    then show False using n by simp
  qed
next
  assume "scan_atoms current_version_re l = None"
  then show "line_version l = None"
    by (simp add: line_version_def match_det[OF det_patterns(3)])
qed

lemma join_nl_Cons: "ls \<noteq> [] \<Longrightarrow> join_nl (l # ls) = l @ nl # join_nl ls"
  by (cases ls) simp_all

lemma search_first_line:
  assumes "nl \<notin> set l" "scan_atoms current_version_re l = Some (ps, r0)"
  shows "\<exists>r. search_bol current_version_re True (join_nl (l # ls)) = Some (ps, r)"
proof (cases ls)
  case Nil
  then show ?thesis using assms by (simp add: search_last match_det[OF det_patterns(3)])
next
  case (Cons a as)
  then have j: "join_nl (l # ls) = l @ nl # join_nl ls" by (simp add: join_nl_Cons)
  show ?thesis
    unfolding j using assms(1) scan_extends[OF assms(2), of "nl # join_nl ls"]
    by (simp add: search_line match_det[OF det_patterns(3)])
qed

lemma search_next_line:
  assumes "nl \<notin> set l" "scan_atoms current_version_re l = None" "\<not> unfinished l" "ls \<noteq> []"
  shows "search_bol current_version_re True (join_nl (l # ls)) =
         search_bol current_version_re True (join_nl ls)"
proof -
  have "scan_atoms current_version_re (l @ nl # join_nl ls) = None"
    using scan_line[OF lits_current, of l "join_nl ls"] assms(2,3) by (simp add: unfinished_def)
  then show ?thesis
    using assms(1,4) by (simp add: join_nl_Cons search_line match_det[OF det_patterns(3)])
qed

lemma search_lines_hit:
  assumes "\<forall>l\<in>set ls. nl \<notin> set l" "i < length ls"
    and "scan_atoms current_version_re (ls ! i) = Some (ps, r0)"
    and "\<forall>j<i. scan_atoms current_version_re (ls ! j) = None \<and> \<not> unfinished (ls ! j)"
  shows "\<exists>r. search_bol current_version_re True (join_nl ls) = Some (ps, r)"
  using assms
proof (induction ls arbitrary: i)
  case Nil
  then show ?case by simp
next
  case (Cons l ls)
  show ?case
  proof (cases i)
    case 0
    with Cons.prems show ?thesis by (intro search_first_line) simp_all
  next
    case (Suc k)
    with Cons.prems have k: "k < length ls" and ne: "ls \<noteq> []" by auto
    have 0: "scan_atoms current_version_re l = None" "\<not> unfinished l"
      using Cons.prems(4) Suc by auto
    have s: "search_bol current_version_re True (join_nl (l # ls)) =
         search_bol current_version_re True (join_nl ls)"
      using Cons.prems(1) 0 ne by (intro search_next_line) simp_all
    have "\<exists>r. search_bol current_version_re True (join_nl ls) = Some (ps, r)"
    proof (rule Cons.IH[OF _ k])
      show "\<forall>l\<in>set ls. nl \<notin> set l" using Cons.prems(1) by simp
      show "scan_atoms current_version_re (ls ! k) = Some (ps, r0)" using Cons.prems(3) Suc by simp
      show "\<forall>j<k. scan_atoms current_version_re (ls ! j) = None \<and> \<not> unfinished (ls ! j)"
        using Cons.prems(4) Suc by auto
    qed
    then show ?thesis using s by simp
  qed
qed

lemma search_lines_some:
  assumes "\<forall>l\<in>set ls. nl \<notin> set l" "l \<in> set ls" "scan_atoms current_version_re l \<noteq> None"
  shows "search_bol current_version_re True (join_nl ls) \<noteq> None"
  using assms
proof (induction ls)
  case Nil
  then show ?case by simp
next
  case (Cons a ls)
  show ?case
  proof (cases "scan_atoms current_version_re a")
    case (Some m)
    obtain ps r0 where "m = (ps, r0)" by (cases m)
    with Some search_first_line[of a ps r0 ls] Cons.prems(1) show ?thesis by auto
  next
    case None
    with Cons.prems have l: "l \<in> set ls" by auto
    then have ne: "ls \<noteq> []" by auto
    have ih: "search_bol current_version_re True (join_nl ls) \<noteq> None"
      using Cons.IH Cons.prems l by simp
    have "nl \<notin> set a" using Cons.prems(1) by simp
    then show ?thesis
      using ih ne by (simp add: join_nl_Cons search_line split: option.splits)
  qed
qed

lemma search_bol_match:
  "search_bol re bol s = Some m \<Longrightarrow> \<exists>t. match_atoms re t = Some m"
  by (induction s arbitrary: bol) (auto split: if_splits option.splits)

lemma find_version_Some:
  assumes "search_bol current_version_re True s = Some (ps, r)"
  shows "find_version s = Some (ps ! 5)"
proof -
  from search_bol_match[OF assms] obtain t where "match_atoms current_version_re t = Some (ps, r)" ..
  then have "scan_atoms current_version_re t = Some (ps, r)" by (simp add: match_det[OF det_patterns(3)])
  from scan_sound[OF this] have "list_all2 piece_ok current_version_re ps" by simp
  then obtain k1 k2 v' where "ps = [''version'', k1, ''='', k2, [dq], v', [dq]]"
    unfolding pieces_current by blast
  then show ?thesis using assms by (simp add: find_version_def)
qed

lemma find_version_first_line:
  assumes "ls = split_nl content" "i < length ls" "line_version (ls ! i) = Some v"
    and "\<forall>j<i. line_version (ls ! j) = None \<and> \<not> unfinished (ls ! j)"
  shows "find_version content = Some v"
proof -
  from assms(3) obtain ps r0 where s: "scan_atoms current_version_re (ls ! i) = Some (ps, r0)"
    and v: "ps ! 5 = v" unfolding line_version_Some by blast
  have n: "\<forall>l\<in>set ls. nl \<notin> set l" using assms(1) split_nl_no_nl by blast
  have "\<forall>j<i. scan_atoms current_version_re (ls ! j) = None \<and> \<not> unfinished (ls ! j)"
    using assms(4) by (simp add: line_version_None)
  from search_lines_hit[OF n assms(2) s this] obtain r where
    "search_bol current_version_re True (join_nl ls) = Some (ps, r)" ..
  then have "find_version (join_nl ls) = Some v" using v find_version_Some by blast
  then show ?thesis using assms(1) by simp
qed

lemma find_version_None:
  assumes "find_version content = None"
  shows "\<forall>l\<in>set (split_nl content). line_version l = None"
proof (rule ccontr)
  assume "\<not> (\<forall>l\<in>set (split_nl content). line_version l = None)"
  then obtain l where l: "l \<in> set (split_nl content)" "line_version l \<noteq> None" by blast
  then have "scan_atoms current_version_re l \<noteq> None" by (simp add: line_version_None)
  moreover have "\<forall>l\<in>set (split_nl content). nl \<notin> set l" using split_nl_no_nl by blast
  ultimately have "search_bol current_version_re True (join_nl (split_nl content)) \<noteq> None"
    using l(1) by (intro search_lines_some[where l = l]) simp_all
  then obtain ps r where "search_bol current_version_re True content = Some (ps, r)" by auto
  then have "find_version content = Some (ps ! 5)" by (rule find_version_Some)
  then show False using assms by simp
qed

lemma startswith_appendD: "startswith l w \<Longrightarrow> l = w @ drop (length w) l"
  by (metis append_take_drop_id startswith_def)

lemma line_version_iff:
  "line_version l = Some v \<longleftrightarrow>
     (\<exists>k1 k2 rest. l = ''version'' @ k1 @ ''='' @ k2 @ [dq] @ v @ [dq] @ rest
        \<and> list_all is_space k1 \<and> list_all is_space k2 \<and> v \<noteq> [] \<and> list_all not_dq v)"
proof
  assume "line_version l = Some v"
  then obtain ps r0 where s: "scan_atoms current_version_re l = Some (ps, r0)" and v: "ps ! 5 = v"
    unfolding line_version_Some by blast
  from scan_sound[OF s] have l: "l = concat ps @ r0" and p: "list_all2 piece_ok current_version_re ps"
    by simp_all
  from p obtain k1 k2 v' where ps: "ps = [''version'', k1, ''='', k2, [dq], v', [dq]]"
    and ok: "list_all is_space k1" "list_all is_space k2" "v' \<noteq> []" "list_all not_dq v'"
    unfolding pieces_current by blast
  have "v' = v" using v ps by simp
  then show "\<exists>k1 k2 rest. l = ''version'' @ k1 @ ''='' @ k2 @ [dq] @ v @ [dq] @ rest
        \<and> list_all is_space k1 \<and> list_all is_space k2 \<and> v \<noteq> [] \<and> list_all not_dq v"
    using l ps ok by (intro exI[of _ k1] exI[of _ k2] exI[of _ r0]) simp
next
  assume "\<exists>k1 k2 rest. l = ''version'' @ k1 @ ''='' @ k2 @ [dq] @ v @ [dq] @ rest
        \<and> list_all is_space k1 \<and> list_all is_space k2 \<and> v \<noteq> [] \<and> list_all not_dq v"
  then obtain k1 k2 rest where l: "l = ''version'' @ k1 @ ''='' @ k2 @ [dq] @ v @ [dq] @ rest"
    and ok: "list_all is_space k1" "list_all is_space k2" "v \<noteq> []" "list_all not_dq v"
    by blast
  let ?ps = "[''version'', k1, ''='', k2, [dq], v, [dq]]"
  have "list_all2 piece_ok current_version_re ?ps" unfolding pieces_current using ok by blast
  then have "scan_atoms current_version_re (concat ?ps @ rest) = Some (?ps, rest)"
    using det_patterns(3) tail_current by (intro scan_complete)
  then have "scan_atoms current_version_re l = Some (?ps, rest)" using l by simp
  then show "line_version l = Some v" unfolding line_version_Some by force
qed

lemma takeWhile_all: "dropWhile P xs = [] \<Longrightarrow> list_all P xs"
  by (simp add: list_all_iff)

lemma takeWhile_list_all: "list_all P (takeWhile P xs)"
  by (auto simp: list_all_iff dest: set_takeWhileD)

lemma unfinished_forms:
  assumes "unfinished l"
  shows "(\<exists>k1. l = ''version'' @ k1 \<and> list_all is_space k1)
       \<or> (\<exists>k1 k2. l = ''version'' @ k1 @ ''='' @ k2 \<and> list_all is_space k1 \<and> list_all is_space k2)
       \<or> (\<exists>k1 k2 v. l = ''version'' @ k1 @ ''='' @ k2 @ [dq] @ v
             \<and> list_all is_space k1 \<and> list_all is_space k2 \<and> list_all not_dq v)"
proof -
  define l1 where "l1 = drop 7 l"
  define k1 where "k1 = takeWhile is_space l1"
  define l2 where "l2 = dropWhile is_space l1"
  define l3 where "l3 = drop 1 l2"
  define k2 where "k2 = takeWhile is_space l3"
  define l4 where "l4 = dropWhile is_space l3"
  define l5 where "l5 = drop 1 l4"
  from assms have sw: "startswith l ''version''"
    and r1: "l2 = [] \<or> (startswith l2 ''='' \<and> (l4 = [] \<or> (startswith l4 [dq] \<and> dropWhile not_dq l5 = [])))"
    unfolding unfinished_def current_version_re_def l1_def l2_def l3_def l4_def l5_def
    by (simp_all only: runs_off.simps list.size length_Cons One_nat_def[symmetric] simp_thms)
      (simp_all add: eval_nat_numeral)
  have "length ''version'' = 7" by simp
  then have l: "l = ''version'' @ l1" using startswith_appendD[OF sw] unfolding l1_def by metis
  have e1: "l1 = k1 @ l2" by (simp add: k1_def l2_def)
  have e3: "l3 = k2 @ l4" by (simp add: k2_def l4_def)
  have s1: "list_all is_space k1" "list_all is_space k2"
    by (simp_all add: k1_def k2_def takeWhile_list_all)
  from r1 show ?thesis
  proof (elim disjE conjE)
    assume "l2 = []"
    then have "l = ''version'' @ k1" using l e1 by simp
    then show ?thesis using s1 by blast
  next
    assume a: "startswith l2 ''=''" "l4 = []"
    have "length ''='' = 1" by simp
    then have "l2 = ''='' @ l3" using startswith_appendD[OF a(1)] unfolding l3_def by metis
    then have "l = ''version'' @ k1 @ ''='' @ k2" using l e1 e3 a(2) by simp
    then show ?thesis using s1 by blast
  next
    assume a: "startswith l2 ''=''" "startswith l4 [dq]" "dropWhile not_dq l5 = []"
    have "length ''='' = 1" by simp
    then have "l2 = ''='' @ l3" using startswith_appendD[OF a(1)] unfolding l3_def by metis
    moreover have "length [dq] = 1" by simp
    then have "l4 = [dq] @ l5" using startswith_appendD[OF a(2)] unfolding l5_def by metis
    ultimately have "l = ''version'' @ k1 @ ''='' @ k2 @ [dq] @ l5" using l e1 e3 by simp
    moreover have "list_all not_dq l5" using a(3) by (rule takeWhile_all)
    ultimately show ?thesis using s1 by blast
  qed
qed

subsection \<open>Facts about the example inputs\<close>

lemma cargo_facts:
  "find_version (cargo_at ''1.2.3'') = Some ''1.2.3''"
  "find_version (cargo_at ''1.2.4'') = Some ''1.2.4''"
  "update_text (cargo_at ''1.2.3'') ''1.2.4'' = (True, split_nl (cargo_at ''1.2.4''))"
  "update_text (cargo_at ''1.2.4'') ''1.2.5'' = (True, split_nl (cargo_at ''1.2.5''))"
  "join_nl (split_nl (cargo_at ''1.2.4'')) = cargo_at ''1.2.4''"
  "join_nl (split_nl (cargo_at ''1.2.5'')) = cargo_at ''1.2.5''"
  by code_simp+

lemma bump_facts:
  "get_bump_type_from_commit ''fix(core): patch bug'' = Some Patch"
  "bump_version ''1.2.3'' (Some Patch) = Inr ''1.2.4''"
  "bump_version ''1.2.4'' (Some Patch) = Inr ''1.2.5''"
  by code_simp+

lemma path_facts: "root_cargo \<noteq> tauri_cargo" "root_cargo \<noteq> tauri_conf" "tauri_cargo \<noteq> tauri_conf"
  by code_simp+

lemmas run_defs = main_def apply_updates_def get_current_version_def update_cargo_toml_def
  read_text_def write_text_def print_out_def path_exists_def world_of_def

lemma cargo_has_tracked_version_line:
  "\<exists>i<length (split_nl (cargo_at ''1.2.3'')).
      tracked (split_nl (cargo_at ''1.2.3'')) i \<and> is_version_line (split_nl (cargo_at ''1.2.3'') ! i)"
proof -
  have "2 < length (split_nl (cargo_at ''1.2.3''))
      \<and> tracked (split_nl (cargo_at ''1.2.3'')) 2 \<and> is_version_line (split_nl (cargo_at ''1.2.3'') ! 2)"
    by code_simp
  then show ?thesis by blast
qed

section \<open>The claims\<close>

text \<open>
  Claim C1. For a version text that parses as (major, minor, patch), \<open>bump_version\<close>
  returns \<^verbatim>\<open>(major+1).0.0\<close> for \<open>Major\<close>, \<^verbatim>\<open>major.(minor+1).0\<close> for \<open>Minor\<close> and
  \<^verbatim>\<open>major.minor.(patch+1)\<close> for \<open>Patch\<close>; read back by \<open>parse_version\<close>, the result
  has the targeted component one higher, the components after it 0 and the ones before it
  unchanged.
\<close>

theorem bump_version_components:
  assumes "parse_version v = Inr (major, minor, patch)"
  shows "bump_version v (Some Major) = Inr (str_of_nat (major + 1) @ ''.0.0'')
       \<and> bump_version v (Some Minor) = Inr (str_of_nat major @ ''.'' @ str_of_nat (minor + 1) @ ''.0'')
       \<and> bump_version v (Some Patch) =
           Inr (str_of_nat major @ ''.'' @ str_of_nat minor @ ''.'' @ str_of_nat (patch + 1))
       \<and> parse_version (str_of_nat (major + 1) @ ''.0.0'') = Inr (major + 1, 0, 0)
       \<and> parse_version (str_of_nat major @ ''.'' @ str_of_nat (minor + 1) @ ''.0'') =
           Inr (major, minor + 1, 0)
       \<and> parse_version (str_of_nat major @ ''.'' @ str_of_nat minor @ ''.'' @ str_of_nat (patch + 1)) =
           Inr (major, minor, patch + 1)"
proof -
  have f: "fmt_version (major + 1) 0 0 = str_of_nat (major + 1) @ ''.0.0''"
    "fmt_version major (minor + 1) 0 = str_of_nat major @ ''.'' @ str_of_nat (minor + 1) @ ''.0''"
    "fmt_version major minor (patch + 1) =
       str_of_nat major @ ''.'' @ str_of_nat minor @ ''.'' @ str_of_nat (patch + 1)"
    by (simp_all add: fmt_version_def str_of_nat_0)
  have b: "bump_version v (Some Major) = Inr (fmt_version (major + 1) 0 0)"
    "bump_version v (Some Minor) = Inr (fmt_version major (minor + 1) 0)"
    "bump_version v (Some Patch) = Inr (fmt_version major minor (patch + 1))"
    using assms by (simp_all add: bump_version_def)
  show ?thesis
    using b parse_fmt_version[of "major + 1" 0 0] parse_fmt_version[of major "minor + 1" 0]
      parse_fmt_version[of major minor "patch + 1"]
    unfolding f by simp
qed

theorem bump_version_components_witness:
  "parse_version ''1.9.3'' = Inr (1, 9, 3)
   \<and> bump_version ''1.9.3'' (Some Major) = Inr ''2.0.0''
   \<and> bump_version ''1.9.3'' (Some Minor) = Inr ''1.10.0''
   \<and> bump_version ''1.9.3'' (Some Patch) = Inr ''1.9.4''"
proof -
  have h: "parse_version ''1.9.3'' = Inr (1, 9, 3)"
    by code_simp
  have s: "str_of_nat (1 + 1) = ''2''" "str_of_nat 1 = ''1''" "str_of_nat (9 + 1) = ''10''"
    "str_of_nat 9 = ''9''" "str_of_nat 3 = ''3''" "str_of_nat (3 + 1) = ''4''"
    by code_simp+
  show ?thesis
    using bump_version_components[OF h] h unfolding s by simp
qed

text \<open>
  Claim C2. The classifier removes the white space around the commit message and lowers its
  case, then answers by the first prefix that fits: \<^verbatim>\<open>release(\<close> gives \<open>Major\<close>,
  \<^verbatim>\<open>feature(\<close> gives \<open>Minor\<close>, \<^verbatim>\<open>fix(\<close> gives \<open>Patch\<close>, anything else \<open>None\<close>.
  What \<open>strip\<close> returns is the message without a run of white space at each end, and it
  neither starts nor ends with white space. Two messages that differ only in case get the
  same answer, white space added at either end changes nothing, and
  \<^verbatim>\<open>' Release(x): y '\<close> is \<open>Major\<close>.
\<close>

theorem classifier_contract:
  "(\<exists>pre post. msg = pre @ strip msg @ post \<and> list_all is_space pre \<and> list_all is_space post)
   \<and> (strip msg = [] \<or> (\<not> is_space (hd (strip msg)) \<and> \<not> is_space (last (strip msg))))
   \<and> get_bump_type_from_commit msg =
        (if \<exists>rest. lower (strip msg) = ''release('' @ rest then Some Major
         else if \<exists>rest. lower (strip msg) = ''feature('' @ rest then Some Minor
         else if \<exists>rest. lower (strip msg) = ''fix('' @ rest then Some Patch
         else None)
   \<and> (lower msg = lower msg' \<longrightarrow> get_bump_type_from_commit msg = get_bump_type_from_commit msg')
   \<and> (list_all is_space pre \<and> list_all is_space post \<longrightarrow>
        get_bump_type_from_commit (pre @ msg @ post) = get_bump_type_from_commit msg)
   \<and> get_bump_type_from_commit '' Release(x): y '' = Some Major"
proof (intro conjI impI)
  show "\<exists>pre post. msg = pre @ strip msg @ post \<and> list_all is_space pre \<and> list_all is_space post"
    by (rule strip_decomp)
  show "strip msg = [] \<or> (\<not> is_space (hd (strip msg)) \<and> \<not> is_space (last (strip msg)))"
    by (rule strip_ends)
  show "get_bump_type_from_commit msg =
        (if \<exists>rest. lower (strip msg) = ''release('' @ rest then Some Major
         else if \<exists>rest. lower (strip msg) = ''feature('' @ rest then Some Minor
         else if \<exists>rest. lower (strip msg) = ''fix('' @ rest then Some Patch
         else None)"
    unfolding get_bump_type_from_commit_def Let_def startswith_iff ..
  show "get_bump_type_from_commit msg = get_bump_type_from_commit msg'" if "lower msg = lower msg'"
    using that by (rule classify_lower)
  show "get_bump_type_from_commit (pre @ msg @ post) = get_bump_type_from_commit msg"
    if "list_all is_space pre \<and> list_all is_space post"
    using that by (simp add: get_bump_type_from_commit_def strip_pad)
  show "get_bump_type_from_commit '' Release(x): y '' = Some Major"
    by code_simp
qed

theorem classifier_contract_witness:
  "get_bump_type_from_commit (CHR 0x09 # ''FIX(ui): Typo  '') = Some Patch
   \<and> get_bump_type_from_commit ''Feature(API): add'' = get_bump_type_from_commit ''feature(api): add''"
proof -
  have l: "lower ''Feature(API): add'' = lower ''feature(api): add''"
    by code_simp
  have s: "list_all is_space [CHR 0x09] \<and> list_all is_space ''  ''"
    by code_simp
  have p: "get_bump_type_from_commit ''FIX(ui): Typo'' = Some Patch"
    by code_simp
  from classifier_contract[of "''Feature(API): add''" "''feature(api): add''" "[]" "[]"] l
  have 1: "get_bump_type_from_commit ''Feature(API): add'' = get_bump_type_from_commit ''feature(api): add''"
    by blast
  from classifier_contract[of "''FIX(ui): Typo''" "[]" "[CHR 0x09]" "''  ''"] s
  have "get_bump_type_from_commit ([CHR 0x09] @ ''FIX(ui): Typo'' @ ''  '') = get_bump_type_from_commit ''FIX(ui): Typo''"
    by blast
  then show ?thesis using 1 p by simp
qed

text \<open>
  Claim C3, as stated, fails: the loop has no test for "first". Every line of the tracked
  section that matches the pattern is rewritten, so a second matching line is rewritten too.
\<close>

theorem later_version_lines_rewritten:
  "update_cargo_toml root_cargo ''9.9.9'' (world_of [root_cargo \<mapsto> twice_cargo]) =
     (Inr True,
      \<lparr>files = [root_cargo \<mapsto>
          ''[package]'' @ [nl] @ ''version = '' @ [dq] @ ''9.9.9'' @ [dq] @ [nl]
          @ ''version = '' @ [dq] @ ''9.9.9'' @ [dq]],
       stdout = [], stderr = [],
       io_log = [FileRead root_cargo, FileWrite root_cargo]\<rparr>)"
proof -
  have 1: "update_text twice_cargo ''9.9.9'' =
     (True, [''[package]'', ''version = '' @ [dq] @ ''9.9.9'' @ [dq],
             ''version = '' @ [dq] @ ''9.9.9'' @ [dq]])"
    by code_simp
  have 2: "join_nl [''[package]'', ''version = '' @ [dq] @ ''9.9.9'' @ [dq],
             ''version = '' @ [dq] @ ''9.9.9'' @ [dq]] =
          ''[package]'' @ [nl] @ ''version = '' @ [dq] @ ''9.9.9'' @ [dq] @ [nl]
          @ ''version = '' @ [dq] @ ''9.9.9'' @ [dq]"
    by code_simp
  show ?thesis
    unfolding update_cargo_toml_def read_text_def write_text_def world_of_def
    by (simp add: 1 2)
qed

text \<open>
  Claim C3, amended. The new version is a text without a backslash, as every version that
  \<open>bump_version\<close> makes is. The writer splits the file at line breaks (joining the lines
  again gives the file). Every line that lies in the tracked section and matches the pattern
  is replaced by its substitution; every other line is copied to the output as it is, blank
  lines and lines outside the section included. The file is written, with the output lines
  joined by line breaks, only when some line was replaced; otherwise it is only read.

  A line matches the pattern when it is white space, \<^verbatim>\<open>version\<close>, white space, \<^verbatim>\<open>=\<close>,
  white space and a non-empty quoted text without a quote in it, followed by anything. When
  the rest of such a line holds no further text of the form \<^verbatim>\<open>version = "..."\<close>, the
  substitution changes the quoted value to the new version and nothing else: the rest of the
  line stays as it is. In general the substitution is fixed by two equations: a text in which
  the pattern matches nowhere is unchanged; and in a text whose first match starts after
  \<open>pre\<close>, the part \<open>pre\<close> and the match stay but for the quoted value, which becomes the new
  version, and the text after the match is substituted in the same way. The last part of the
  statement says that the substitution is the only function with these two equations.
\<close>

theorem update_cargo_toml_frame:
  assumes "files w file_path = Some content"
    and "ls = split_nl content"
    and "no_backslash new_version"
  shows "join_nl ls = content
    \<and> (\<exists>out.
          length out = length ls
        \<and> (\<forall>i<length ls. out ! i =
              (if tracked ls i \<and> is_version_line (ls ! i) then sub_version new_version (ls ! i)
               else ls ! i))
        \<and> update_cargo_toml file_path new_version w =
            (if \<exists>i<length ls. tracked ls i \<and> is_version_line (ls ! i)
             then (Inr True,
                   w\<lparr>files := (files w)(file_path \<mapsto> join_nl out),
                     io_log := io_log w @ [FileRead file_path, FileWrite file_path]\<rparr>)
             else (Inr False, w\<lparr>io_log := io_log w @ [FileRead file_path]\<rparr>)))
    \<and> (\<forall>l. is_version_line l \<longleftrightarrow>
          (\<exists>ws k1 k2 v rest. l = ws @ ''version'' @ k1 @ ''='' @ k2 @ [dq] @ v @ [dq] @ rest
             \<and> list_all is_space ws \<and> list_all is_space k1 \<and> list_all is_space k2
             \<and> v \<noteq> [] \<and> list_all not_dq v))
    \<and> (\<forall>t. has_version_text t \<longleftrightarrow>
          (\<exists>k1 k2 v rest. t = ''version'' @ k1 @ ''='' @ k2 @ [dq] @ v @ [dq] @ rest
             \<and> list_all is_space k1 \<and> list_all is_space k2 \<and> v \<noteq> [] \<and> list_all not_dq v))
    \<and> (\<forall>ws k1 k2 v rest.
          list_all is_space ws \<and> list_all is_space k1 \<and> list_all is_space k2
          \<and> v \<noteq> [] \<and> list_all not_dq v
          \<and> (\<forall>a t. rest = a @ t \<longrightarrow> \<not> has_version_text t) \<longrightarrow>
          sub_version new_version (ws @ ''version'' @ k1 @ ''='' @ k2 @ [dq] @ v @ [dq] @ rest) =
            ws @ ''version'' @ k1 @ ''='' @ k2 @ [dq] @ new_version @ [dq] @ rest)
    \<and> (\<forall>s. (\<forall>a t. s = a @ t \<longrightarrow> \<not> has_version_text t) \<longrightarrow> sub_version new_version s = s)
    \<and> (\<forall>pre k1 k2 v rest.
          list_all is_space k1 \<and> list_all is_space k2 \<and> v \<noteq> [] \<and> list_all not_dq v
          \<and> (\<forall>a b. pre = a @ b \<and> b \<noteq> [] \<longrightarrow>
                \<not> has_version_text (b @ ''version'' @ k1 @ ''='' @ k2 @ [dq] @ v @ [dq] @ rest)) \<longrightarrow>
          sub_version new_version (pre @ ''version'' @ k1 @ ''='' @ k2 @ [dq] @ v @ [dq] @ rest) =
            pre @ ''version'' @ k1 @ ''='' @ k2 @ [dq] @ new_version @ [dq]
                @ sub_version new_version rest)
    \<and> (\<forall>f.
          (\<forall>s. (\<forall>a t. s = a @ t \<longrightarrow> \<not> has_version_text t) \<longrightarrow> f s = s)
        \<and> (\<forall>pre k1 k2 v rest.
              list_all is_space k1 \<and> list_all is_space k2 \<and> v \<noteq> [] \<and> list_all not_dq v
              \<and> (\<forall>a b. pre = a @ b \<and> b \<noteq> [] \<longrightarrow>
                    \<not> has_version_text (b @ ''version'' @ k1 @ ''='' @ k2 @ [dq] @ v @ [dq] @ rest)) \<longrightarrow>
              f (pre @ ''version'' @ k1 @ ''='' @ k2 @ [dq] @ v @ [dq] @ rest) =
                pre @ ''version'' @ k1 @ ''='' @ k2 @ [dq] @ new_version @ [dq] @ f rest)
          \<longrightarrow> (\<forall>s. f s = sub_version new_version s))"
proof (intro conjI)
  show "join_nl ls = content" using assms(2) by simp
  show "\<exists>out.
          length out = length ls
        \<and> (\<forall>i<length ls. out ! i =
              (if tracked ls i \<and> is_version_line (ls ! i) then sub_version new_version (ls ! i)
               else ls ! i))
        \<and> update_cargo_toml file_path new_version w =
            (if \<exists>i<length ls. tracked ls i \<and> is_version_line (ls ! i)
             then (Inr True,
                   w\<lparr>files := (files w)(file_path \<mapsto> join_nl out),
                     io_log := io_log w @ [FileRead file_path, FileWrite file_path]\<rparr>)
             else (Inr False, w\<lparr>io_log := io_log w @ [FileRead file_path]\<rparr>))"
  proof (intro exI[of _ "rewritten new_version False ls"] conjI allI impI)
    show "length (rewritten new_version False ls) = length ls" by simp
    show "rewritten new_version False ls ! i =
            (if tracked ls i \<and> is_version_line (ls ! i) then sub_version new_version (ls ! i)
             else ls ! i)" if "i < length ls" for i
      using nth_rewritten[OF that] by (simp add: tracked_def)
    show "update_cargo_toml file_path new_version w =
          (if \<exists>i<length ls. tracked ls i \<and> is_version_line (ls ! i)
           then (Inr True,
                 w\<lparr>files := (files w)(file_path \<mapsto> join_nl (rewritten new_version False ls)),
                   io_log := io_log w @ [FileRead file_path, FileWrite file_path]\<rparr>)
           else (Inr False, w\<lparr>io_log := io_log w @ [FileRead file_path]\<rparr>))"
      unfolding assms(2) using assms(1) by (rule update_cargo_toml_eq)
  qed
  show "\<forall>l. is_version_line l \<longleftrightarrow>
          (\<exists>ws k1 k2 v rest. l = ws @ ''version'' @ k1 @ ''='' @ k2 @ [dq] @ v @ [dq] @ rest
             \<and> list_all is_space ws \<and> list_all is_space k1 \<and> list_all is_space k2
             \<and> v \<noteq> [] \<and> list_all not_dq v)"
    by (intro allI) (rule is_version_line_iff)
  show "\<forall>t. has_version_text t \<longleftrightarrow>
          (\<exists>k1 k2 v rest. t = ''version'' @ k1 @ ''='' @ k2 @ [dq] @ v @ [dq] @ rest
             \<and> list_all is_space k1 \<and> list_all is_space k2 \<and> v \<noteq> [] \<and> list_all not_dq v)"
    by (intro allI) (rule has_version_text_iff)
  show "\<forall>ws k1 k2 v rest.
          list_all is_space ws \<and> list_all is_space k1 \<and> list_all is_space k2
          \<and> v \<noteq> [] \<and> list_all not_dq v
          \<and> (\<forall>a t. rest = a @ t \<longrightarrow> \<not> has_version_text t) \<longrightarrow>
          sub_version new_version (ws @ ''version'' @ k1 @ ''='' @ k2 @ [dq] @ v @ [dq] @ rest) =
            ws @ ''version'' @ k1 @ ''='' @ k2 @ [dq] @ new_version @ [dq] @ rest"
    by (intro allI impI, elim conjE) (rule sub_version_line_kept)
  show "\<forall>s. (\<forall>a t. s = a @ t \<longrightarrow> \<not> has_version_text t) \<longrightarrow> sub_version new_version s = s"
    by (intro allI impI) (rule sub_version_no_match)
  show "\<forall>pre k1 k2 v rest.
          list_all is_space k1 \<and> list_all is_space k2 \<and> v \<noteq> [] \<and> list_all not_dq v
          \<and> (\<forall>a b. pre = a @ b \<and> b \<noteq> [] \<longrightarrow>
                \<not> has_version_text (b @ ''version'' @ k1 @ ''='' @ k2 @ [dq] @ v @ [dq] @ rest)) \<longrightarrow>
          sub_version new_version (pre @ ''version'' @ k1 @ ''='' @ k2 @ [dq] @ v @ [dq] @ rest) =
            pre @ ''version'' @ k1 @ ''='' @ k2 @ [dq] @ new_version @ [dq]
                @ sub_version new_version rest"
    by (intro allI impI, elim conjE) (rule sub_version_first_match)
  show "\<forall>f.
          (\<forall>s. (\<forall>a t. s = a @ t \<longrightarrow> \<not> has_version_text t) \<longrightarrow> f s = s)
        \<and> (\<forall>pre k1 k2 v rest.
              list_all is_space k1 \<and> list_all is_space k2 \<and> v \<noteq> [] \<and> list_all not_dq v
              \<and> (\<forall>a b. pre = a @ b \<and> b \<noteq> [] \<longrightarrow>
                    \<not> has_version_text (b @ ''version'' @ k1 @ ''='' @ k2 @ [dq] @ v @ [dq] @ rest)) \<longrightarrow>
              f (pre @ ''version'' @ k1 @ ''='' @ k2 @ [dq] @ v @ [dq] @ rest) =
                pre @ ''version'' @ k1 @ ''='' @ k2 @ [dq] @ new_version @ [dq] @ f rest)
          \<longrightarrow> (\<forall>s. f s = sub_version new_version s)"
  proof (intro allI impI)
    fix f :: "string \<Rightarrow> string" and s
    assume a: "(\<forall>s. (\<forall>a t. s = a @ t \<longrightarrow> \<not> has_version_text t) \<longrightarrow> f s = s)
        \<and> (\<forall>pre k1 k2 v rest.
              list_all is_space k1 \<and> list_all is_space k2 \<and> v \<noteq> [] \<and> list_all not_dq v
              \<and> (\<forall>a b. pre = a @ b \<and> b \<noteq> [] \<longrightarrow>
                    \<not> has_version_text (b @ ''version'' @ k1 @ ''='' @ k2 @ [dq] @ v @ [dq] @ rest)) \<longrightarrow>
              f (pre @ ''version'' @ k1 @ ''='' @ k2 @ [dq] @ v @ [dq] @ rest) =
                pre @ ''version'' @ k1 @ ''='' @ k2 @ [dq] @ new_version @ [dq] @ f rest)"
    note a1 = a[THEN conjunct1, rule_format]
    note a2 = a[THEN conjunct2, rule_format]
    show "f s = sub_version new_version s"
    proof (rule sub_version_unique)
      fix s assume n: "\<forall>a t. s = a @ t \<longrightarrow> \<not> has_version_text t"
      show "f s = s"
      proof (rule a1)
        fix a t assume "s = a @ t"
        then show "\<not> has_version_text t" using n by blast
      qed
    next
      fix pre k1 k2 v rest
      assume p: "list_all is_space k1" "list_all is_space k2" "v \<noteq> []" "list_all not_dq v"
        and n: "\<forall>a b. pre = a @ b \<and> b \<noteq> [] \<longrightarrow>
           \<not> has_version_text (b @ ''version'' @ k1 @ ''='' @ k2 @ [dq] @ v @ [dq] @ rest)"
      show "f (pre @ ''version'' @ k1 @ ''='' @ k2 @ [dq] @ v @ [dq] @ rest) =
          pre @ ''version'' @ k1 @ ''='' @ k2 @ [dq] @ new_version @ [dq] @ f rest"
      proof (rule a2)
        show "list_all is_space k1 \<and> list_all is_space k2 \<and> v \<noteq> [] \<and> list_all not_dq v
          \<and> (\<forall>a b. pre = a @ b \<and> b \<noteq> [] \<longrightarrow>
              \<not> has_version_text (b @ ''version'' @ k1 @ ''='' @ k2 @ [dq] @ v @ [dq] @ rest))"
          using p n by (intro conjI)
      qed
    qed
  qed
qed

theorem update_cargo_toml_frame_witness:
  "fst (update_cargo_toml root_cargo ''1.2.4'' (world_of [root_cargo \<mapsto> cargo_at ''1.2.3''])) = Inr True
   \<and> sub_version ''1.2.4'' (''  version = '' @ [dq] @ ''1.2.3'' @ [dq] @ '' # keep'') =
       ''  version = '' @ [dq] @ ''1.2.4'' @ [dq] @ '' # keep''"
proof -
  let ?w = "world_of [root_cargo \<mapsto> cargo_at ''1.2.3'']"
  let ?ls = "split_nl (cargo_at ''1.2.3'')"
  have f: "files ?w root_cargo = Some (cargo_at ''1.2.3'')"
    by (simp add: world_of_def)
  have n: "no_backslash ''1.2.4''" by code_simp
  note t = update_cargo_toml_frame[OF f refl n]
  note t_file = t[THEN conjunct2, THEN conjunct1]
  note t_line = t[THEN conjunct2, THEN conjunct2, THEN conjunct2, THEN conjunct2, THEN conjunct1,
      THEN spec, THEN spec, THEN spec, THEN spec, THEN spec, THEN mp]
  from t_file obtain out where
    u: "update_cargo_toml root_cargo ''1.2.4'' ?w =
       (if \<exists>i<length ?ls. tracked ?ls i \<and> is_version_line (?ls ! i)
        then (Inr True,
              ?w\<lparr>files := (files ?w)(root_cargo \<mapsto> join_nl out),
                  io_log := io_log ?w @ [FileRead root_cargo, FileWrite root_cargo]\<rparr>)
        else (Inr False, ?w\<lparr>io_log := io_log ?w @ [FileRead root_cargo]\<rparr>))"
    by (elim exE conjE)
  have 1: "fst (update_cargo_toml root_cargo ''1.2.4'' ?w) = Inr True"
    unfolding u if_P[OF cargo_has_tracked_version_line] by (rule fst_conv)
  have k: "\<forall>a t. '' # keep'' = a @ t \<longrightarrow> \<not> has_version_text t"
  proof (intro allI impI notI)
    fix a t assume e: "'' # keep'' = a @ t" and h: "has_version_text t"
    from h have "CHR ''v'' \<in> set t" by (rule has_version_text_v)
    then have "CHR ''v'' \<in> set (a @ t)" by simp
    then have "CHR ''v'' \<in> set '' # keep''" by (simp only: e)
    then show False by simp
  qed
  have p: "list_all is_space ''  '' \<and> list_all is_space '' '' \<and> list_all is_space '' ''
      \<and> ''1.2.3'' \<noteq> [] \<and> list_all not_dq ''1.2.3''"
    by code_simp
  have c: "list_all is_space ''  '' \<and> list_all is_space '' '' \<and> list_all is_space '' ''
      \<and> ''1.2.3'' \<noteq> [] \<and> list_all not_dq ''1.2.3''
      \<and> (\<forall>a t. '' # keep'' = a @ t \<longrightarrow> \<not> has_version_text t)"
    using p k by (intro conjI) (elim conjE, assumption)+
  have "sub_version ''1.2.4'' (''  '' @ ''version'' @ '' '' @ ''='' @ '' '' @ [dq] @ ''1.2.3'' @ [dq] @ '' # keep'') =
            ''  '' @ ''version'' @ '' '' @ ''='' @ '' '' @ [dq] @ ''1.2.4'' @ [dq] @ '' # keep''"
    by (rule t_line[OF c])
  then have 2: "sub_version ''1.2.4'' (''  version = '' @ [dq] @ ''1.2.3'' @ [dq] @ '' # keep'') =
       ''  version = '' @ [dq] @ ''1.2.4'' @ [dq] @ '' # keep''"
    by simp
  show ?thesis using 1 2 by (rule conjI)
qed

text \<open>
  Claim C4, as stated, fails: a line equal to \<^verbatim>\<open>[package]\<close> sets the flag whatever came
  before. After \<^verbatim>\<open>[package]\<close> and \<^verbatim>\<open>[dependencies]\<close> the scanner is outside the tracked
  section; a second \<^verbatim>\<open>[package]\<close> line puts it inside again, and the version line that
  follows is rewritten.
\<close>

theorem section_reentered:
  "\<not> fst (update_loop ''9.9.9'' [''[package]'', ''[dependencies]''] False False [])
   \<and> fst (update_loop ''9.9.9'' [''[package]'', ''[dependencies]'', ''[package]''] False False [])
   \<and> update_text reopened_cargo ''9.9.9'' =
       (True, [''[package]'', ''[dependencies]'', ''[package]'',
               ''version = '' @ [dq] @ ''9.9.9'' @ [dq]])"
  by code_simp

text \<open>
  Claim C4, amended. A header line equal to \<^verbatim>\<open>[package]\<close> puts the scanner in the
  tracked state wherever it stands, also after the section was closed. After a different
  bracketed header the scanner is outside the tracked state and stays outside as long as no
  line equal to \<^verbatim>\<open>[package]\<close> follows.
\<close>

theorem scanner_state:
  "(is_package_header l \<longrightarrow> fst (update_loop new_version (ls @ [l]) b u out))
   \<and> (is_header h \<and> \<not> is_package_header h \<and> (\<forall>l\<in>set ls'. \<not> is_package_header l) \<longrightarrow>
        \<not> fst (update_loop new_version (ls @ h # ls') b u out))"
proof (intro conjI impI)
  assume "is_package_header l"
  then show "fst (update_loop new_version (ls @ [l]) b u out)"
    by (simp add: update_loop_eq tracked_after_append tracked_after_one package_is_header)
next
  assume a: "is_header h \<and> \<not> is_package_header h \<and> (\<forall>l\<in>set ls'. \<not> is_package_header l)"
  have "tracked_after b (ls @ h # ls') = tracked_after (tracked_after b (ls @ [h])) ls'"
    using tracked_after_append[of b "ls @ [h]" ls'] by simp
  moreover have "\<not> tracked_after b (ls @ [h])"
    using a by (simp add: tracked_after_append tracked_after_one)
  ultimately show "\<not> fst (update_loop new_version (ls @ h # ls') b u out)"
    using a tracked_after_no_package[of ls'] by (simp add: update_loop_eq)
qed

theorem scanner_state_witness:
  "fst (update_loop ''9.9.9'' [''[package]'', ''[dependencies]'', ''  [package] ''] False False [])
   \<and> \<not> fst (update_loop ''9.9.9'' [''[package]'', ''[dependencies]'', ''serde = 1''] False False [])"
proof -
  have 1: "is_package_header ''  [package] ''" by code_simp
  have 2: "is_header ''[dependencies]'' \<and> \<not> is_package_header ''[dependencies]''
     \<and> (\<forall>l\<in>set [''serde = 1'']. \<not> is_package_header l)" by code_simp
  from scanner_state[of "''  [package] ''" "''9.9.9''" "[''[package]'', ''[dependencies]'']" False False "[]"
      "''[dependencies]''" "[''serde = 1'']"] 1
  have a: "fst (update_loop ''9.9.9'' ([''[package]'', ''[dependencies]''] @ [''  [package] '']) False False [])"
    by blast
  from scanner_state[of "''  [package] ''" "''9.9.9''" "[''[package]'']" False False "[]"
      "''[dependencies]''" "[''serde = 1'']"] 2
  have b: "\<not> fst (update_loop ''9.9.9'' ([''[package]''] @ ''[dependencies]'' # [''serde = 1'']) False False [])"
    by blast
  from a b show ?thesis by simp
qed

text \<open>
  Claim C5. When the commit message, trimmed and lowered, starts with none of the three
  prefixes, it classifies to \<open>None\<close> and the program exits at once with status 0: the world is
  the one it started in, so no file was read or written, every file has the content it had,
  and nothing was printed.
\<close>

theorem no_bump_no_effect:
  assumes "\<not> startswith (lower (strip msg)) ''release(''"
    and "\<not> startswith (lower (strip msg)) ''feature(''"
    and "\<not> startswith (lower (strip msg)) ''fix(''"
  shows "get_bump_type_from_commit msg = None
       \<and> main loads dumps (prog # msg # rest_args) w = (Exit 0, w)
       \<and> exit_code (fst (main loads dumps (prog # msg # rest_args) w)) = 0"
  using assms by (simp add: get_bump_type_from_commit_def main_def)

theorem no_bump_no_effect_witness:
  "main conf_loads conf_dumps [''bump_version.py'', ''chore: cleanup'']
     (world_of [root_cargo \<mapsto> cargo_at ''1.2.3''])
   = (Exit 0, world_of [root_cargo \<mapsto> cargo_at ''1.2.3''])"
proof -
  have "\<not> startswith (lower (strip ''chore: cleanup'')) ''release(''"
    "\<not> startswith (lower (strip ''chore: cleanup'')) ''feature(''"
    "\<not> startswith (lower (strip ''chore: cleanup'')) ''fix(''"
    by code_simp+
  from no_bump_no_effect[OF this] show ?thesis by blast
qed

text \<open>
  Claim C6, as stated, fails: the reader takes the first version line anywhere in the file,
  the writer only rewrites lines of the tracked section. For a root manifest whose version
  line stands under \<^verbatim>\<open>[workspace.package]\<close> the run passes the guard (1.2.4 differs from
  1.2.3), the writer returns False, and the run ends with the notice that nothing changed.
\<close>

theorem root_not_updated:
  "main conf_loads conf_dumps [''bump_version.py'', ''fix(core): patch bug'']
     (world_of [root_cargo \<mapsto> workspace_cargo])
   = (Exit 0,
      \<lparr>files = [root_cargo \<mapsto> workspace_cargo],
       stdout = [''No changes made for version: 1.2.3''],
       stderr = [],
       io_log = [FileRead root_cargo, FileRead root_cargo]\<rparr>)"
proof -
  have 1: "get_bump_type_from_commit ''fix(core): patch bug'' = Some Patch" by code_simp
  have 2: "find_version workspace_cargo = Some ''1.2.3''" by code_simp
  have 3: "bump_version ''1.2.3'' (Some Patch) = Inr ''1.2.4''" by code_simp
  have 4: "update_text workspace_cargo ''1.2.4'' = (False, split_nl workspace_cargo)" by code_simp
  show ?thesis
    using path_facts by (simp add: run_defs 1 2 3 4)
qed

text \<open>
  Claim C6, amended. A run that passes the guard goes on to the writers with the root
  manifest read once. The writer applied to the root manifest returns True exactly when some
  line of the tracked section matches the writer's pattern. When there is no such line and
  neither follower file exists, the run prints the notice that no changes were made and
  exits with status 0, having written nothing.
\<close>

theorem root_writer_updated_iff:
  assumes "get_bump_type_from_commit msg = Some bump_type"
    and "files w root_cargo = Some content"
    and "find_version content = Some current_version"
    and "version_to_bump =
           (case rest_args of [] \<Rightarrow> current_version
            | b # _ \<Rightarrow> if b \<noteq> [] then b else current_version)"
    and "bump_version version_to_bump (Some bump_type) = Inr new_version"
    and "new_version \<noteq> current_version"
    and "ls = split_nl content"
  shows "main loads dumps (prog # msg # rest_args) w =
           apply_updates loads dumps current_version version_to_bump new_version bump_type
             (w\<lparr>io_log := io_log w @ [FileRead root_cargo]\<rparr>)
       \<and> fst (update_cargo_toml root_cargo new_version (w\<lparr>io_log := io_log w @ [FileRead root_cargo]\<rparr>))
           = Inr (\<exists>i<length ls. tracked ls i \<and> is_version_line (ls ! i))
       \<and> (files w tauri_cargo = None \<and> files w tauri_conf = None
            \<and> \<not> (\<exists>i<length ls. tracked ls i \<and> is_version_line (ls ! i)) \<longrightarrow>
          main loads dumps (prog # msg # rest_args) w =
            (Exit 0,
             w\<lparr>stdout := stdout w @ [''No changes made for version: '' @ current_version],
               io_log := io_log w @ [FileRead root_cargo, FileRead root_cargo]\<rparr>))"
proof -
  let ?w1 = "w\<lparr>io_log := io_log w @ [FileRead root_cargo]\<rparr>"
  have vtb: "(case if 2 < length (prog # msg # rest_args) then Some ((prog # msg # rest_args) ! 2) else None of
               None \<Rightarrow> current_version
             | Some b \<Rightarrow> if b \<noteq> [] then b else current_version) = version_to_bump"
    using assms(4) by (cases rest_args) simp_all
  have m: "main loads dumps (prog # msg # rest_args) w =
           apply_updates loads dumps current_version version_to_bump new_version bump_type ?w1"
    using assms(1,2,3,5,6) vtb
    by (simp add: main_def get_current_version_def read_text_def Let_def del: One_nat_def)
  have f1: "files ?w1 root_cargo = Some content" using assms(2) by simp
  have u: "update_cargo_toml root_cargo new_version ?w1 =
    (if \<exists>i<length ls. tracked ls i \<and> is_version_line (ls ! i)
     then (Inr True,
           ?w1\<lparr>files := (files ?w1)(root_cargo \<mapsto> join_nl (rewritten new_version False ls)),
             io_log := io_log ?w1 @ [FileRead root_cargo, FileWrite root_cargo]\<rparr>)
     else (Inr False, ?w1\<lparr>io_log := io_log ?w1 @ [FileRead root_cargo]\<rparr>))"
    unfolding assms(7) using f1 by (rule update_cargo_toml_eq)
  have n: "main loads dumps (prog # msg # rest_args) w =
            (Exit 0,
             w\<lparr>stdout := stdout w @ [''No changes made for version: '' @ current_version],
               io_log := io_log w @ [FileRead root_cargo, FileRead root_cargo]\<rparr>)"
    if a: "files w tauri_cargo = None \<and> files w tauri_conf = None
            \<and> \<not> (\<exists>i<length ls. tracked ls i \<and> is_version_line (ls ! i))"
  proof -
    from a have "\<not> (\<exists>i<length ls. tracked ls i \<and> is_version_line (ls ! i))" by blast
    then have u': "update_cargo_toml root_cargo new_version ?w1 =
        (Inr False, ?w1\<lparr>io_log := io_log ?w1 @ [FileRead root_cargo]\<rparr>)"
      unfolding u by (rule if_not_P)
    show ?thesis
      unfolding m apply_updates_def u' using a
      by (simp add: path_exists_def print_out_def)
  qed
  show ?thesis using m u n by simp
qed

theorem root_writer_updated_iff_witness:
  "fst (update_cargo_toml root_cargo ''1.2.4''
          ((world_of [root_cargo \<mapsto> cargo_at ''1.2.3''])\<lparr>io_log := [FileRead root_cargo]\<rparr>)) = Inr True
   \<and> main conf_loads conf_dumps [''bump_version.py'', ''fix(core): patch bug'']
       (world_of [root_cargo \<mapsto> ''version = '' @ [dq] @ ''0.1.0'' @ [dq]])
     = (Exit 0,
        \<lparr>files = [root_cargo \<mapsto> ''version = '' @ [dq] @ ''0.1.0'' @ [dq]],
         stdout = [''No changes made for version: 0.1.0''], stderr = [],
         io_log = [FileRead root_cargo, FileRead root_cargo]\<rparr>)"
proof -
  let ?c = "''version = '' @ [dq] @ ''0.1.0'' @ [dq]"
  have g: "get_bump_type_from_commit ''fix(core): patch bug'' = Some Patch" by code_simp
  have f: "files (world_of [root_cargo \<mapsto> cargo_at ''1.2.3'']) root_cargo = Some (cargo_at ''1.2.3'')"
    by (simp add: world_of_def)
  have v: "find_version (cargo_at ''1.2.3'') = Some ''1.2.3''" by code_simp
  have b: "bump_version ''1.2.3'' (Some Patch) = Inr ''1.2.4''" by code_simp
  have d: "''1.2.4'' \<noteq> ''1.2.3''" by simp
  have vt: "''1.2.3'' = (case [] :: string list of [] \<Rightarrow> ''1.2.3'' | b # _ \<Rightarrow> if b \<noteq> [] then b else ''1.2.3'')"
    by simp
  from root_writer_updated_iff[OF g f v vt b d refl, of conf_loads conf_dumps "''bump_version.py''"]
    cargo_has_tracked_version_line
  have 1: "fst (update_cargo_toml root_cargo ''1.2.4''
          ((world_of [root_cargo \<mapsto> cargo_at ''1.2.3''])\<lparr>io_log := [FileRead root_cargo]\<rparr>)) = Inr True"
    by (simp add: world_of_def)
  have f': "files (world_of [root_cargo \<mapsto> ?c]) root_cargo = Some ?c"
    by (simp add: world_of_def)
  have v': "find_version ?c = Some ''0.1.0''" by code_simp
  have b': "bump_version ''0.1.0'' (Some Patch) = Inr ''0.1.1''" by code_simp
  have d': "''0.1.1'' \<noteq> ''0.1.0''" by simp
  have vt': "''0.1.0'' = (case [] :: string list of [] \<Rightarrow> ''0.1.0'' | b # _ \<Rightarrow> if b \<noteq> [] then b else ''0.1.0'')"
    by simp
  have none: "\<not> (\<exists>i<length (split_nl ?c). tracked (split_nl ?c) i \<and> is_version_line (split_nl ?c ! i))"
  proof -
    have l: "split_nl ?c = [?c]" by code_simp
    have "\<not> tracked [?c] 0" by code_simp
    then show ?thesis unfolding l by simp
  qed
  have nf: "files (world_of [root_cargo \<mapsto> ?c]) tauri_cargo = None
      \<and> files (world_of [root_cargo \<mapsto> ?c]) tauri_conf = None"
    using path_facts by (auto simp: world_of_def)
  have a: "files (world_of [root_cargo \<mapsto> ?c]) tauri_cargo = None
      \<and> files (world_of [root_cargo \<mapsto> ?c]) tauri_conf = None
      \<and> \<not> (\<exists>i<length (split_nl ?c). tracked (split_nl ?c) i \<and> is_version_line (split_nl ?c ! i))"
    using none nf by (intro conjI) blast+
  note t = root_writer_updated_iff[OF g f' v' vt' b' d' refl, of conf_loads conf_dumps "''bump_version.py''"]
  have 2: "main conf_loads conf_dumps [''bump_version.py'', ''fix(core): patch bug''] (world_of [root_cargo \<mapsto> ?c])
     = (Exit 0,
        (world_of [root_cargo \<mapsto> ?c])\<lparr>stdout := stdout (world_of [root_cargo \<mapsto> ?c]) @ [''No changes made for version: '' @ ''0.1.0''],
               io_log := io_log (world_of [root_cargo \<mapsto> ?c]) @ [FileRead root_cargo, FileRead root_cargo]\<rparr>)"
    by (rule t[THEN conjunct2, THEN conjunct2, THEN mp, OF a])
  show ?thesis using 1 2 by (simp add: world_of_def)
qed

text \<open>
  Claim C7, as stated, fails when no base version is given: the second run reads the
  version that the first run wrote, takes it as the version to bump, and bumps again. Here
  the first run takes the root manifest from 1.2.3 to its target 1.2.4; the second run, with
  the same arguments, reports 1.2.4 -> 1.2.5 and writes the file.
\<close>

theorem second_run_without_base_bumps_again:
  "main conf_loads conf_dumps [''bump_version.py'', ''fix(core): patch bug'']
     (world_of [root_cargo \<mapsto> cargo_at ''1.2.3''])
   = (Exit 0,
      \<lparr>files = [root_cargo \<mapsto> cargo_at ''1.2.4''],
       stdout = [''Version bumped: 1.2.3 -> 1.2.4 (patch)'', ''Updated: Cargo.toml''],
       stderr = [],
       io_log = [FileRead root_cargo, FileRead root_cargo, FileWrite root_cargo]\<rparr>)
   \<and> main conf_loads conf_dumps [''bump_version.py'', ''fix(core): patch bug'']
       (world_of [root_cargo \<mapsto> cargo_at ''1.2.4''])
   = (Exit 0,
      \<lparr>files = [root_cargo \<mapsto> cargo_at ''1.2.5''],
       stdout = [''Version bumped: 1.2.4 -> 1.2.5 (patch)'', ''Updated: Cargo.toml''],
       stderr = [],
       io_log = [FileRead root_cargo, FileRead root_cargo, FileWrite root_cargo]\<rparr>)"
  using path_facts by (simp add: run_defs cargo_facts bump_facts)

text \<open>
  Claim C7, amended. Running the tool again with the same commit message and the same
  non-empty base version, when the current version of the root manifest already is the
  version that these arguments compute, prints the no-change notice and exits with status 0;
  the root manifest is read once, no file is written, and every file keeps its content.
\<close>

theorem second_run_no_change:
  assumes "get_bump_type_from_commit msg = Some bump_type"
    and "base_version \<noteq> []"
    and "files w root_cargo = Some content"
    and "find_version content = Some target"
    and "bump_version base_version (Some bump_type) = Inr target"
  shows "main loads dumps (prog # msg # base_version # rest_args) w =
           (Exit 0, w\<lparr>stdout := stdout w @ [''No version change: '' @ target],
                      io_log := io_log w @ [FileRead root_cargo]\<rparr>)"
  using assms
  by (simp add: main_def get_current_version_def read_text_def print_out_def)

theorem second_run_no_change_witness:
  "main conf_loads conf_dumps [''bump_version.py'', ''fix(core): patch bug'', ''1.2.3'']
     (world_of [root_cargo \<mapsto> cargo_at ''1.2.3''])
   = (Exit 0,
      \<lparr>files = [root_cargo \<mapsto> cargo_at ''1.2.4''],
       stdout = [''Version bumped: 1.2.3 -> 1.2.4 (patch)'', ''Updated: Cargo.toml''],
       stderr = [],
       io_log = [FileRead root_cargo, FileRead root_cargo, FileWrite root_cargo]\<rparr>)
   \<and> main conf_loads conf_dumps [''bump_version.py'', ''fix(core): patch bug'', ''1.2.3'']
       (world_of [root_cargo \<mapsto> cargo_at ''1.2.4''])
   = (Exit 0,
      \<lparr>files = [root_cargo \<mapsto> cargo_at ''1.2.4''],
       stdout = [''No version change: 1.2.4''],
       stderr = [],
       io_log = [FileRead root_cargo]\<rparr>)"
proof -
  have first: "main conf_loads conf_dumps [''bump_version.py'', ''fix(core): patch bug'', ''1.2.3'']
     (world_of [root_cargo \<mapsto> cargo_at ''1.2.3''])
   = (Exit 0,
      \<lparr>files = [root_cargo \<mapsto> cargo_at ''1.2.4''],
       stdout = [''Version bumped: 1.2.3 -> 1.2.4 (patch)'', ''Updated: Cargo.toml''],
       stderr = [],
       io_log = [FileRead root_cargo, FileRead root_cargo, FileWrite root_cargo]\<rparr>)"
    using path_facts by (simp add: run_defs cargo_facts bump_facts)
  have f: "files (world_of [root_cargo \<mapsto> cargo_at ''1.2.4'']) root_cargo = Some (cargo_at ''1.2.4'')"
    by (simp add: world_of_def)
  have b: "''1.2.3'' \<noteq> []" by simp
  show ?thesis
    using first second_run_no_change[OF bump_facts(1) b f cargo_facts(2) bump_facts(2),
        of conf_loads conf_dumps "''bump_version.py''" "[]"]
    by (simp add: world_of_def)
qed

lemma map_of_update_other: "k \<noteq> k' \<Longrightarrow> map_of (AList.update k' v al) k = map_of al k"
  by (simp add: update_conv')

text \<open>
  Claim C8. For a file that \<^verbatim>\<open>json.loads\<close> reads as an object: when its \<^verbatim>\<open>version\<close> is
  already the new version, the writer reports False and writes nothing (the file is only
  read); otherwise it reports True and writes what \<^verbatim>\<open>json.dumps\<close> with \<^verbatim>\<open>indent=2\<close> makes of
  the changed object, followed by a line break. The changed object has the new version under
  \<^verbatim>\<open>version\<close>, the same value as before under every other key, and the keys in the same
  order (\<^verbatim>\<open>version\<close> is added at the end when it was missing).
\<close>

theorem update_tauri_conf_round_trip:
  assumes "files w file_path = Some content"
    and "loads content = Some (JObj data)"
  shows "(map_of data ''version'' = Some (JStr new_version) \<longrightarrow>
            update_tauri_conf loads dumps file_path new_version w =
              (Inr False, w\<lparr>io_log := io_log w @ [FileRead file_path]\<rparr>))
       \<and> (map_of data ''version'' \<noteq> Some (JStr new_version) \<longrightarrow>
            update_tauri_conf loads dumps file_path new_version w =
              (Inr True,
               w\<lparr>files := (files w)(file_path \<mapsto>
                      dumps (JObj (AList.update ''version'' (JStr new_version) data)) 2 @ [nl]),
                 io_log := io_log w @ [FileRead file_path, FileWrite file_path]\<rparr>))
       \<and> map_of (AList.update ''version'' (JStr new_version) data) ''version'' = Some (JStr new_version)
       \<and> (\<forall>k. k \<noteq> ''version'' \<longrightarrow>
            map_of (AList.update ''version'' (JStr new_version) data) k = map_of data k)
       \<and> map fst (AList.update ''version'' (JStr new_version) data) =
           (if ''version'' \<in> fst ` set data then map fst data else map fst data @ [''version''])"
proof (intro conjI impI allI)
  assume "map_of data ''version'' = Some (JStr new_version)"
  then show "update_tauri_conf loads dumps file_path new_version w =
              (Inr False, w\<lparr>io_log := io_log w @ [FileRead file_path]\<rparr>)"
    using assms by (simp add: update_tauri_conf_def read_text_def)
next
  assume "map_of data ''version'' \<noteq> Some (JStr new_version)"
  then show "update_tauri_conf loads dumps file_path new_version w =
              (Inr True,
               w\<lparr>files := (files w)(file_path \<mapsto>
                      dumps (JObj (AList.update ''version'' (JStr new_version) data)) 2 @ [nl]),
                 io_log := io_log w @ [FileRead file_path, FileWrite file_path]\<rparr>)"
    using assms by (simp add: update_tauri_conf_def read_text_def write_text_def)
next
  show "map_of (AList.update ''version'' (JStr new_version) data) ''version'' = Some (JStr new_version)"
    by (simp add: update_conv')
next
  fix k :: string
  assume "k \<noteq> ''version''"
  then show "map_of (AList.update ''version'' (JStr new_version) data) k = map_of data k"
    by (rule map_of_update_other)
next
  show "map fst (AList.update ''version'' (JStr new_version) data) =
           (if ''version'' \<in> fst ` set data then map fst data else map fst data @ [''version''])"
    by (simp add: update_keys)
qed

theorem update_tauri_conf_round_trip_witness:
  "update_tauri_conf conf_loads conf_dumps tauri_conf ''1.2.3'' (world_of [tauri_conf \<mapsto> conf_text])
     = (Inr False,
        \<lparr>files = [tauri_conf \<mapsto> conf_text], stdout = [], stderr = [],
         io_log = [FileRead tauri_conf]\<rparr>)
   \<and> update_tauri_conf conf_loads conf_dumps tauri_conf ''1.2.4'' (world_of [tauri_conf \<mapsto> conf_text])
     = (Inr True,
        \<lparr>files = [tauri_conf \<mapsto>
            ''{'' @ [nl] @ ''  '' @ [dq] @ ''productName'' @ [dq] @ '': '' @ [dq] @ ''decorator'' @ [dq]
            @ '','' @ [nl] @ ''  '' @ [dq] @ ''version'' @ [dq] @ '': '' @ [dq] @ ''1.2.4'' @ [dq]
            @ [nl] @ ''}'' @ [nl]],
         stdout = [], stderr = [],
         io_log = [FileRead tauri_conf, FileWrite tauri_conf]\<rparr>)"
proof -
  let ?w = "world_of [tauri_conf \<mapsto> conf_text]"
  let ?data = "[(''productName'', JStr ''decorator''), (''version'', JStr ''1.2.3'')]"
  have f: "files ?w tauri_conf = Some conf_text"
    by (simp add: world_of_def)
  have l: "conf_loads conf_text = Some (JObj ?data)"
    by (simp add: conf_loads_def)
  have same: "map_of ?data ''version'' = Some (JStr ''1.2.3'')"
    and other: "map_of ?data ''version'' \<noteq> Some (JStr ''1.2.4'')"
    by simp_all
  have d: "conf_dumps (JObj (AList.update ''version'' (JStr ''1.2.4'') ?data)) 2 @ [nl] =
       ''{'' @ [nl] @ ''  '' @ [dq] @ ''productName'' @ [dq] @ '': '' @ [dq] @ ''decorator'' @ [dq]
            @ '','' @ [nl] @ ''  '' @ [dq] @ ''version'' @ [dq] @ '': '' @ [dq] @ ''1.2.4'' @ [dq]
            @ [nl] @ ''}'' @ [nl]"
    by code_simp
  from same
    update_tauri_conf_round_trip[where loads = conf_loads and dumps = conf_dumps
        and w = "?w" and file_path = tauri_conf and content = conf_text and data = "?data"
        and new_version = "''1.2.3''", OF f l]
  have a: "update_tauri_conf conf_loads conf_dumps tauri_conf ''1.2.3'' ?w =
      (Inr False, ?w\<lparr>io_log := io_log ?w @ [FileRead tauri_conf]\<rparr>)"
    by blast
  from other
    update_tauri_conf_round_trip[where loads = conf_loads and dumps = conf_dumps
        and w = "?w" and file_path = tauri_conf and content = conf_text and data = "?data"
        and new_version = "''1.2.4''", OF f l]
  have b: "update_tauri_conf conf_loads conf_dumps tauri_conf ''1.2.4'' ?w =
      (Inr True,
       ?w\<lparr>files := (files ?w)(tauri_conf \<mapsto>
              conf_dumps (JObj (AList.update ''version'' (JStr ''1.2.4'') ?data)) 2 @ [nl]),
         io_log := io_log ?w @ [FileRead tauri_conf, FileWrite tauri_conf]\<rparr>)"
    by blast
  show ?thesis
    unfolding a b d by (simp add: world_of_def)
qed

text \<open>
  Claim C9. \<open>parse_version\<close> reads three runs of digits separated by dots at the start of
  the text and ignores what follows the third run (the third number is the longest run of
  digits there), so \<^verbatim>\<open>1.2.3-beta.1\<close> gives (1, 2, 3). A text that does not start with
  such a pattern gives the error \<^verbatim>\<open>ValueError\<close> (the specification's
  \<^verbatim>\<open>InvalidVersionFormat\<close>), whose message holds the text.
\<close>

theorem parse_version_leading_pattern:
  "(a \<noteq> [] \<and> list_all is_digit a \<and> b \<noteq> [] \<and> list_all is_digit b \<and> c \<noteq> [] \<and> list_all is_digit c
      \<longrightarrow> parse_version (a @ ''.'' @ b @ ''.'' @ c @ rest) =
            Inr (int_of_digits a, int_of_digits b, int_of_digits (c @ takeWhile is_digit rest)))
   \<and> (\<not> (\<exists>a b c rest. s = a @ ''.'' @ b @ ''.'' @ c @ rest \<and> a \<noteq> [] \<and> list_all is_digit a
              \<and> b \<noteq> [] \<and> list_all is_digit b \<and> c \<noteq> [] \<and> list_all is_digit c)
      \<longrightarrow> parse_version s = Inl (ValueError (''Invalid version format: '' @ s)))
   \<and> parse_version ''1.2.3-beta.1'' = Inr (1, 2, 3)"
proof (intro conjI impI)
  assume "a \<noteq> [] \<and> list_all is_digit a \<and> b \<noteq> [] \<and> list_all is_digit b \<and> c \<noteq> [] \<and> list_all is_digit c"
  then show "parse_version (a @ ''.'' @ b @ ''.'' @ c @ rest) =
            Inr (int_of_digits a, int_of_digits b, int_of_digits (c @ takeWhile is_digit rest))"
    by (intro parse_version_ok) simp_all
next
  assume "\<not> (\<exists>a b c rest. s = a @ ''.'' @ b @ ''.'' @ c @ rest \<and> a \<noteq> [] \<and> list_all is_digit a
              \<and> b \<noteq> [] \<and> list_all is_digit b \<and> c \<noteq> [] \<and> list_all is_digit c)"
  then show "parse_version s = Inl (ValueError (''Invalid version format: '' @ s))"
    by (rule parse_version_fail)
next
  have "parse_version (''1'' @ ''.'' @ ''2'' @ ''.'' @ ''3'' @ ''-beta.1'') =
     Inr (int_of_digits ''1'', int_of_digits ''2'', int_of_digits (''3'' @ takeWhile is_digit ''-beta.1''))"
    by (rule parse_version_ok) (simp_all add: is_digit_def)
  then show "parse_version ''1.2.3-beta.1'' = Inr (1, 2, 3)"
    by (simp add: int_of_digits_def digit_val_def is_digit_def)
qed

theorem parse_version_leading_pattern_witness:
  "parse_version ''10.2.34rc5'' = Inr (10, 2, 34)
   \<and> parse_version ''v1.2.3'' = Inl (ValueError ''Invalid version format: v1.2.3'')"
proof -
  have h1: "''10'' \<noteq> [] \<and> list_all is_digit ''10'' \<and> ''2'' \<noteq> [] \<and> list_all is_digit ''2''
      \<and> ''3'' \<noteq> [] \<and> list_all is_digit ''3''"
    by (simp add: is_digit_def)
  have h2: "\<not> (\<exists>a b c rest. ''v1.2.3'' = a @ ''.'' @ b @ ''.'' @ c @ rest \<and> a \<noteq> [] \<and> list_all is_digit a
              \<and> b \<noteq> [] \<and> list_all is_digit b \<and> c \<noteq> [] \<and> list_all is_digit c)"
    by (auto simp: Cons_eq_append_conv is_digit_def)
  have e: "int_of_digits ''10'' = 10" "int_of_digits ''2'' = 2"
    "int_of_digits (''3'' @ takeWhile is_digit ''4rc5'') = 34"
    by (simp_all add: int_of_digits_def digit_val_def is_digit_def)
  show ?thesis
    using parse_version_leading_pattern[of "''10''" "''2''" "''3''" "''4rc5''" "''v1.2.3''"] h1 h2 e
    by simp
qed

text \<open>
  Claim C10, as stated, fails on a file whose first line opens a quoted value and does not
  close it: white space and the quoted text of the pattern accept line breaks, so the match
  that starts on that line runs into the next one. The first line that starts with
  \<^verbatim>\<open>version = "..."\<close> is the second line, with the value 1.0.0, and the reader returns
  a text that spans the line break instead.
\<close>

theorem first_version_line_not_returned:
  "split_nl unclosed_cargo =
     [''version = '' @ [dq] @ ''a'', ''version = '' @ [dq] @ ''1.0.0'' @ [dq]]
   \<and> line_version (''version = '' @ [dq] @ ''a'') = None
   \<and> line_version (''version = '' @ [dq] @ ''1.0.0'' @ [dq]) = Some ''1.0.0''
   \<and> fst (get_current_version root_cargo (world_of [root_cargo \<mapsto> unclosed_cargo]))
       = Inr (''a'' @ [nl] @ ''version = '')"
proof -
  have "find_version unclosed_cargo = Some (''a'' @ [nl] @ ''version = '')" by code_simp
  then have "fst (get_current_version root_cargo (world_of [root_cargo \<mapsto> unclosed_cargo]))
       = Inr (''a'' @ [nl] @ ''version = '')"
    by (simp add: get_current_version_def read_text_def world_of_def)
  moreover have "split_nl unclosed_cargo =
     [''version = '' @ [dq] @ ''a'', ''version = '' @ [dq] @ ''1.0.0'' @ [dq]]"
    "line_version (''version = '' @ [dq] @ ''a'') = None"
    "line_version (''version = '' @ [dq] @ ''1.0.0'' @ [dq]) = Some ''1.0.0''"
    by code_simp+
  ultimately show ?thesis by blast
qed

text \<open>
  Claim C10, amended. Reading the current version looks at every line of the file, whatever
  section it is in: no header plays a part. Take the first line that starts with
  \<^verbatim>\<open>version\<close>, white space, \<^verbatim>\<open>=\<close>, white space and a non-empty quoted text; when no line
  before it is an unfinished beginning of the pattern (\<^verbatim>\<open>version\<close>, perhaps \<^verbatim>\<open>=\<close> and an
  opening quote, and the end of the line before the closing quote), \<open>get_current_version\<close>
  returns the quoted value of that line, having read the file once. It fails only with the
  error \<^verbatim>\<open>Could not find version\<close>, and then no line of the file starts with the pattern.
\<close>

theorem get_current_version_first_line:
  assumes "files w path = Some content"
    and "ls = split_nl content"
  shows "(i < length ls \<and> line_version (ls ! i) = Some v
            \<and> (\<forall>j<i. line_version (ls ! j) = None \<and> \<not> unfinished (ls ! j)) \<longrightarrow>
          get_current_version path w = (Inr v, w\<lparr>io_log := io_log w @ [FileRead path]\<rparr>))
       \<and> (\<forall>e. fst (get_current_version path w) = Inl e \<longrightarrow>
            e = ValueError (''Could not find version in '' @ path)
            \<and> (\<forall>l\<in>set ls. line_version l = None))
       \<and> (\<forall>l u. line_version l = Some u \<longleftrightarrow>
            (\<exists>k1 k2 rest. l = ''version'' @ k1 @ ''='' @ k2 @ [dq] @ u @ [dq] @ rest
               \<and> list_all is_space k1 \<and> list_all is_space k2 \<and> u \<noteq> [] \<and> list_all not_dq u))
       \<and> (\<forall>l. unfinished l \<longrightarrow>
            (\<exists>k1. l = ''version'' @ k1 \<and> list_all is_space k1)
          \<or> (\<exists>k1 k2. l = ''version'' @ k1 @ ''='' @ k2 \<and> list_all is_space k1 \<and> list_all is_space k2)
          \<or> (\<exists>k1 k2 u. l = ''version'' @ k1 @ ''='' @ k2 @ [dq] @ u
                \<and> list_all is_space k1 \<and> list_all is_space k2 \<and> list_all not_dq u))"
proof (intro conjI impI allI)
  assume "i < length ls \<and> line_version (ls ! i) = Some v
            \<and> (\<forall>j<i. line_version (ls ! j) = None \<and> \<not> unfinished (ls ! j))"
  then have "find_version content = Some v"
    using assms(2) by (intro find_version_first_line[where ls = ls and i = i]) simp_all
  then show "get_current_version path w = (Inr v, w\<lparr>io_log := io_log w @ [FileRead path]\<rparr>)"
    using assms(1) by (simp add: get_current_version_def read_text_def)
next
  fix e
  assume e: "fst (get_current_version path w) = Inl e"
  then have n: "find_version content = None"
    using assms(1) by (auto simp: get_current_version_def read_text_def split: option.splits)
  then show "e = ValueError (''Could not find version in '' @ path)"
    using e assms(1) by (simp add: get_current_version_def read_text_def)
  show "\<forall>l\<in>set ls. line_version l = None"
    unfolding assms(2) using n by (rule find_version_None)
next
  fix l u
  show "line_version l = Some u \<longleftrightarrow>
            (\<exists>k1 k2 rest. l = ''version'' @ k1 @ ''='' @ k2 @ [dq] @ u @ [dq] @ rest
               \<and> list_all is_space k1 \<and> list_all is_space k2 \<and> u \<noteq> [] \<and> list_all not_dq u)"
    by (rule line_version_iff)
next
  fix l
  assume "unfinished l"
  then show "(\<exists>k1. l = ''version'' @ k1 \<and> list_all is_space k1)
          \<or> (\<exists>k1 k2. l = ''version'' @ k1 @ ''='' @ k2 \<and> list_all is_space k1 \<and> list_all is_space k2)
          \<or> (\<exists>k1 k2 u. l = ''version'' @ k1 @ ''='' @ k2 @ [dq] @ u
                \<and> list_all is_space k1 \<and> list_all is_space k2 \<and> list_all not_dq u)"
    by (rule unfinished_forms)
qed

theorem get_current_version_first_line_witness:
  "get_current_version root_cargo (world_of [root_cargo \<mapsto> workspace_cargo])
     = (Inr ''1.2.3'',
        \<lparr>files = [root_cargo \<mapsto> workspace_cargo], stdout = [], stderr = [],
         io_log = [FileRead root_cargo]\<rparr>)"
proof -
  let ?w = "world_of [root_cargo \<mapsto> workspace_cargo]"
  let ?ls = "split_nl workspace_cargo"
  have f: "files ?w root_cargo = Some workspace_cargo" by (simp add: world_of_def)
  have 1: "1 < length ?ls" "line_version (?ls ! 1) = Some ''1.2.3''"
    "line_version (?ls ! 0) = None" "\<not> unfinished (?ls ! 0)"
    by code_simp+
  have "\<forall>j<1. line_version (?ls ! j) = None \<and> \<not> unfinished (?ls ! j)"
    using 1(3,4) by simp
  then have h: "1 < length ?ls \<and> line_version (?ls ! 1) = Some ''1.2.3''
            \<and> (\<forall>j<1. line_version (?ls ! j) = None \<and> \<not> unfinished (?ls ! j))"
    using 1(1,2) by blast
  note t = get_current_version_first_line[OF f refl, of 1 "''1.2.3''"]
  have "get_current_version root_cargo ?w = (Inr ''1.2.3'', ?w\<lparr>io_log := io_log ?w @ [FileRead root_cargo]\<rparr>)"
    by (rule t[THEN conjunct1, THEN mp, OF h])
  then show ?thesis by (simp add: world_of_def)
qed

end
